theory Spec2Isabelle
  imports Complex_Main "HOL-Library.Word" "HOL-Library.Signed_Division"
begin

section \<open>Machine numbers of the Go source\<close>

text \<open>
  The limiter of \<^verbatim>\<open>grpc/grpcserver/concurrency.go\<close> keeps two \<^verbatim>\<open>int64\<close> counters and one
  \<^verbatim>\<open>float64\<close> ratio. An \<^verbatim>\<open>int64\<close> is a 64-bit word read as two's complement (\<open>sint\<close>);
  \<open>+\<close> wraps around, as Go's \<^verbatim>\<open>++\<close> does.
\<close>

type_synonym int64 = "64 word"

definition MaxInt64 :: int64 where
  "MaxInt64 = 0x7FFFFFFFFFFFFFFF"

definition MinInt64 :: int64 where
  "MinInt64 = 0x8000000000000000"

text \<open>
  Go's \<^verbatim>\<open>/\<close> on signed integers truncates towards zero (\<open>sdiv\<close> on \<open>int\<close>); the only
  division of the source has the constant divisor 2, so it neither panics nor overflows.
\<close>

definition int64_quo :: "int64 \<Rightarrow> int64 \<Rightarrow> int64" where
  "int64_quo a b = word_of_int (sint a sdiv sint b)"

subsection \<open>IEEE 754 binary64\<close>

text \<open>
  A \<^verbatim>\<open>float64\<close> is its three bit fields: the sign, the 11-bit biased exponent and the
  52-bit fraction. Every value of the type is a float: exponent field 2047 is an infinity
  (fraction 0) or a NaN, exponent field 0 is a zero or a subnormal number.
\<close>

datatype float64 = F64 (f64_sign: bool) (f64_exp: "11 word") (f64_frac: "52 word")

definition f64_is_finite :: "float64 \<Rightarrow> bool" where
  "f64_is_finite x = (f64_exp x \<noteq> 2047)"

definition f64_is_nan :: "float64 \<Rightarrow> bool" where
  "f64_is_nan x = (f64_exp x = 2047 \<and> f64_frac x \<noteq> 0)"

definition f64_is_inf :: "float64 \<Rightarrow> bool" where
  "f64_is_inf x = (f64_exp x = 2047 \<and> f64_frac x = 0)"

text \<open>A finite float is \<open>\<plusminus> f64_mant * 2 ^ f64_expo\<close>, with the hidden bit of a normal number.\<close>

definition f64_mant :: "float64 \<Rightarrow> nat" where
  "f64_mant x = (if f64_exp x = 0 then unat (f64_frac x) else 2 ^ 52 + unat (f64_frac x))"

definition f64_expo :: "float64 \<Rightarrow> int" where
  "f64_expo x = (if f64_exp x = 0 then - 1074 else int (unat (f64_exp x)) - 1075)"

definition f64_val :: "float64 \<Rightarrow> real" where
  "f64_val x = (if f64_sign x then - 1 else 1) * real (f64_mant x) * 2 powi f64_expo x"

text \<open>
  IEEE 754 rounding to nearest, ties to even, which Go prescribes for \<^verbatim>\<open>float64\<close> conversions
  and arithmetic: \<open>z\<close> is a finite float, no finite float is nearer to the real \<open>y\<close>, and if
  a float of another value is as near, the significand of \<open>z\<close> is even. The operations
  below are defined on the bits; that they round in this sense is proved of them.
\<close>

definition f64_nearest_even :: "float64 \<Rightarrow> real \<Rightarrow> bool" where
  "f64_nearest_even z y =
     (f64_is_finite z \<and>
      (\<forall>w. f64_is_finite w \<longrightarrow> \<bar>f64_val z - y\<bar> \<le> \<bar>f64_val w - y\<bar>) \<and>
      (\<forall>w. f64_is_finite w \<and> f64_val w \<noteq> f64_val z \<and> \<bar>f64_val w - y\<bar> = \<bar>f64_val z - y\<bar>
           \<longrightarrow> even (f64_mant z)))"

definition f64_NaN :: float64 where
  "f64_NaN = F64 False 2047 (2 ^ 51)"

definition f64_Inf :: "bool \<Rightarrow> float64" where
  "f64_Inf s = F64 s 2047 0"

text \<open>The number of bits of a natural number: \<open>2 ^ (bitlen m - 1) \<le> m < 2 ^ bitlen m\<close>.\<close>

fun bitlen :: "nat \<Rightarrow> nat" where
  "bitlen m = (if m = 0 then 0 else Suc (bitlen (m div 2)))"

declare bitlen.simps [simp del]

text \<open>
  Dropping the low \<open>n\<close> bits of \<open>m\<close>, rounding to nearest and a tie to the even
  neighbour: the rounding mode of every Go floating-point operation.
\<close>

definition rne_shift :: "nat \<Rightarrow> nat \<Rightarrow> nat" where
  "rne_shift m n =
     (let d = m div 2 ^ n; r = m mod 2 ^ n; h = 2 ^ (n - 1)
      in if n = 0 then m
         else if h < r \<or> (r = h \<and> odd d) then d + 1 else d)"

text \<open>
  \<open>f64_pack s M q\<close> is the float \<open>\<plusminus> M * 2 ^ q\<close> for a significand \<open>M \<le> 2 ^ 53\<close> at the
  quantum \<open>q\<close> chosen by \<open>f64_round\<close>: a carry out of the significand moves to the next
  exponent, a significand below \<open>2 ^ 52\<close> is subnormal (or zero), an exponent beyond the
  largest is an infinity.
\<close>

definition f64_pack :: "bool \<Rightarrow> nat \<Rightarrow> int \<Rightarrow> float64" where
  "f64_pack s M q =
     (let M' = (if M = 2 ^ 53 then 2 ^ 52 else M);
          q' = (if M = 2 ^ 53 then q + 1 else q)
      in if M' < 2 ^ 52 then F64 s 0 (of_nat M')
         else if 2047 \<le> q' + 1075 then f64_Inf s
         else F64 s (of_int (q' + 1075)) (of_nat (M' - 2 ^ 52)))"

text \<open>
  \<open>f64_round s m e\<close> rounds the exact number \<open>\<plusminus> m * 2 ^ e\<close> to the nearest float, ties
  to even. The quantum \<open>q\<close> leaves 53 significant bits, or is the subnormal quantum
  \<open>2 ^ - 1074\<close>.
\<close>

definition f64_round :: "bool \<Rightarrow> nat \<Rightarrow> int \<Rightarrow> float64" where
  "f64_round s m e =
     (if m = 0 then F64 s 0 0
      else let q = max (e + int (bitlen m) - 53) (- 1074);
               M = (if q \<le> e then m * 2 ^ nat (e - q) else rne_shift m (nat (q - e)))
           in f64_pack s M q)"

text \<open>The conversion \<^verbatim>\<open>float64(n)\<close> of an \<^verbatim>\<open>int64\<close>: exact below \<open>2 ^ 53\<close>, rounded above.\<close>

definition int64_to_f64 :: "int64 \<Rightarrow> float64" where
  "int64_to_f64 n = f64_round (sint n < 0) (nat \<bar>sint n\<bar>) 0"

text \<open>
  The product \<^verbatim>\<open>x * y\<close> of two \<^verbatim>\<open>float64\<close>: the exact product of two finite floats,
  rounded once. Which NaN an invalid product yields depends on the processor; no result
  below depends on it.
\<close>

definition f64_mul :: "float64 \<Rightarrow> float64 \<Rightarrow> float64" where
  "f64_mul x y =
     (if f64_is_nan x \<or> f64_is_nan y then f64_NaN
      else if f64_is_inf x then (if f64_mant y = 0 then f64_NaN else f64_Inf (f64_sign x \<noteq> f64_sign y))
      else if f64_is_inf y then (if f64_mant x = 0 then f64_NaN else f64_Inf (f64_sign x \<noteq> f64_sign y))
      else f64_round (f64_sign x \<noteq> f64_sign y) (f64_mant x * f64_mant y) (f64_expo x + f64_expo y))"

text \<open>
  The conversion \<^verbatim>\<open>int64(x)\<close> of a \<^verbatim>\<open>float64\<close> discards the fraction (truncation towards
  zero). Where the result does not fit an \<^verbatim>\<open>int64\<close> (a NaN, an infinity, a magnitude of
  \<open>2 ^ 63\<close> or more) the Go specification leaves the value to the implementation: the
  parameter \<open>indef\<close> is the platform's answer there (amd64 answers \<^verbatim>\<open>0x8000000000000000\<close>
  for every such \<open>x\<close>).
\<close>

definition f64_trunc :: "float64 \<Rightarrow> int" where
  "f64_trunc x =
     (let t = (if 0 \<le> f64_expo x then int (f64_mant x) * 2 ^ nat (f64_expo x)
               else int (f64_mant x) div 2 ^ nat (- f64_expo x))
      in if f64_sign x then - t else t)"

definition f64_to_int64 :: "(float64 \<Rightarrow> int64) \<Rightarrow> float64 \<Rightarrow> int64" where
  "f64_to_int64 indef x =
     (if f64_is_finite x \<and> - (2 ^ 63) \<le> f64_trunc x \<and> f64_trunc x < 2 ^ 63
      then word_of_int (f64_trunc x) else indef x)"

definition amd64_indef :: "float64 \<Rightarrow> int64" where
  "amd64_indef x = MinInt64"

section \<open>gRPC status codes\<close>

text \<open>
  \<^verbatim>\<open>codes.Code\<close> of google.golang.org/grpc is a \<^verbatim>\<open>uint32\<close>; the five codes the limiter can
  meet by name. \<^verbatim>\<open>status.Code(err)\<close> is \<^verbatim>\<open>codes.OK\<close> for a nil error, the code of the status
  for an error that carries a gRPC status, and \<^verbatim>\<open>codes.Unknown\<close> for any other error.
\<close>

type_synonym Code = "32 word"

definition OK :: Code where "OK = 0"
definition Canceled :: Code where "Canceled = 1"
definition Unknown :: Code where "Unknown = 2"
definition DeadlineExceeded :: Code where "DeadlineExceeded = 4"
definition Unavailable :: Code where "Unavailable = 14"

datatype error = nil | GRPCStatus Code | OtherError

fun status_Code :: "error \<Rightarrow> Code" where
  "status_Code nil = OK"
| "status_Code (GRPCStatus c) = c"
| "status_Code OtherError = Unknown"

section \<open>The limiter\<close>

text \<open>
  The struct \<^verbatim>\<open>limiter\<close> without its mutex: \<^verbatim>\<open>start\<close> and \<^verbatim>\<open>finish\<close> hold the lock from entry
  to return, so each call is one atomic step on the state and an interleaving of calls is a
  sequence of them.
\<close>

record limiter =
  backoffRatio :: float64
  inflight :: int64
  limit :: int64

record transaction =
  tx_inflight :: int64
  tx_limit :: int64

text \<open>The state \<^verbatim>\<open>Limiter(initial, backoffRatio)\<close> builds for its interceptor.\<close>

definition Limiter :: "int64 \<Rightarrow> float64 \<Rightarrow> limiter" where
  "Limiter initial ratio = \<lparr>backoffRatio = ratio, inflight = 0, limit = initial\<rparr>"

text \<open>\<^verbatim>\<open>start\<close> returns the pointer (\<open>None\<close> is nil), the flag, and the state it leaves.\<close>

definition start :: "limiter \<Rightarrow> (transaction option \<times> bool) \<times> limiter" where
  "start l =
     (if sint (limit l) < sint (inflight l) then ((None, False), l)
      else let l' = l\<lparr>inflight := inflight l + 1\<rparr>
           in ((Some \<lparr>tx_inflight = inflight l', tx_limit = limit l'\<rparr>, True), l'))"

text \<open>
  \<^verbatim>\<open>finish\<close> takes the pointer \<^verbatim>\<open>tx\<close>; reading \<^verbatim>\<open>tx.limit\<close> through a nil pointer panics
  (the deferred unlock still runs, and nothing was written).
\<close>

datatype panic = NilPointerDereference

definition finish :: "(float64 \<Rightarrow> int64) \<Rightarrow> limiter \<Rightarrow> transaction option \<Rightarrow> error \<Rightarrow> panic + limiter" where
  "finish indef l tx err =
     (let c = status_Code err
      in if c = Canceled \<or> c = DeadlineExceeded \<or> c = Unavailable then
           (case tx of
              None \<Rightarrow> Inl NilPointerDereference
            | Some t \<Rightarrow>
                if sint (tx_limit t) \<le> sint (limit l) then
                  let lim0 = f64_to_int64 indef (f64_mul (int64_to_f64 (limit l)) (backoffRatio l));
                      lim1 = (if sint lim0 < 1 then 1 else lim0)
                  in Inr (l\<lparr>limit := lim1\<rparr>)
                else Inr l)
         else if sint (int64_quo (limit l) 2) < sint (inflight l) then Inr (l\<lparr>limit := limit l + 1\<rparr>)
         else Inr l)"

text \<open>
  The two branches of the \<^verbatim>\<open>switch\<close> in \<^verbatim>\<open>finish\<close>, for stating what a call does: the case
  list of the first branch, its body, and the body of the default branch.
\<close>

definition overload :: "error \<Rightarrow> bool" where
  "overload err =
     (status_Code err = Canceled \<or> status_Code err = DeadlineExceeded \<or> status_Code err = Unavailable)"

definition multiplicative_decrease :: "(float64 \<Rightarrow> int64) \<Rightarrow> limiter \<Rightarrow> transaction \<Rightarrow> limiter" where
  "multiplicative_decrease indef l t =
     (if sint (tx_limit t) \<le> sint (limit l)
      then let lim0 = f64_to_int64 indef (f64_mul (int64_to_f64 (limit l)) (backoffRatio l))
           in l\<lparr>limit := (if sint lim0 < 1 then 1 else lim0)\<rparr>
      else l)"

definition additive_increase :: "limiter \<Rightarrow> limiter" where
  "additive_increase l =
     (if sint (limit l) sdiv 2 < sint (inflight l) then l\<lparr>limit := limit l + 1\<rparr> else l)"

subsection \<open>Sequences of calls\<close>

text \<open>
  A call of the interceptor's two operations: an admission, or the settling of a ticket
  with the error of its handler.
\<close>

datatype call = Admit | Settle transaction error

fun step :: "(float64 \<Rightarrow> int64) \<Rightarrow> limiter \<Rightarrow> call \<Rightarrow> limiter" where
  "step indef l Admit = snd (start l)"
| "step indef l (Settle t err) = (case finish indef l (Some t) err of Inr l' \<Rightarrow> l' | Inl p \<Rightarrow> l)"

definition run :: "(float64 \<Rightarrow> int64) \<Rightarrow> limiter \<Rightarrow> call list \<Rightarrow> limiter" where
  "run indef l cs = foldl (step indef) l cs"

text \<open>The flags of \<open>n\<close> successive calls of \<^verbatim>\<open>start\<close>, nothing settled between them.\<close>

fun admits :: "nat \<Rightarrow> limiter \<Rightarrow> bool list" where
  "admits 0 l = []"
| "admits (Suc n) l = snd (fst (start l)) # admits n (snd (start l))"

subsection \<open>Ratios used in the examples\<close>

text \<open>\<open>0.5\<close>, the \<^verbatim>\<open>float64\<close> nearest to \<open>0.1\<close> and the one nearest to \<open>1/3\<close>, by their bits.\<close>

definition f64_half :: float64 where
  "f64_half = F64 False 1022 0"

definition f64_tenth :: float64 where
  "f64_tenth = F64 False 1019 0x999999999999A"

definition f64_third :: float64 where
  "f64_third = F64 False 1021 0x5555555555555"

text \<open>The \<^verbatim>\<open>float64\<close> nearest to \<open>0.7\<close>, the value of the Go constant \<^verbatim>\<open>0.7\<close>.\<close>

definition f64_seven_tenths :: float64 where
  "f64_seven_tenths = F64 False 1022 0x6666666666666"

section \<open>Facts about \<^verbatim>\<open>int64\<close>\<close>

lemma int64_quo_examples:
  "sint (int64_quo 5 2) = 2" "sint (int64_quo (- 7) 2) = - 3" "sint (int64_quo 0 2) = 0"
  by (simp_all add: int64_quo_def signed_divide_int_def)

lemma sint_MaxInt64: "sint MaxInt64 = 2 ^ 63 - 1"
  by (simp add: MaxInt64_def)

lemma sint_MinInt64: "sint MinInt64 = - (2 ^ 63)"
  by (simp add: MinInt64_def)

lemma sint64_range: "- (2 ^ 63) \<le> sint (x :: int64)" "sint (x :: int64) < 2 ^ 63"
  using sint_ge [of x] sint_lt [of x] by simp_all

lemma sint64_of_int: "- (2 ^ 63) \<le> k \<Longrightarrow> k < 2 ^ 63 \<Longrightarrow> sint (word_of_int k :: int64) = k"
  by (simp add: sint_sbintrunc' signed_take_bit_int_eq_self)

lemma sint64_eq_iff: "sint (x :: int64) = sint y \<longleftrightarrow> x = y"
  by (auto intro: signed_word_eqI)

lemma sint64_neq_Max: "x \<noteq> MaxInt64 \<longleftrightarrow> sint x < 2 ^ 63 - 1"
proof -
  have "x = MaxInt64 \<longleftrightarrow> sint x = 2 ^ 63 - 1"
    using sint64_eq_iff [of x MaxInt64] by (simp add: sint_MaxInt64)
  then show ?thesis using sint64_range(2) [of x] by auto
qed

text \<open>The increment \<^verbatim>\<open>++\<close> is the integer successor everywhere but at the largest \<^verbatim>\<open>int64\<close>.\<close>

lemma sint64_succ: "x \<noteq> MaxInt64 \<Longrightarrow> sint (x + 1 :: int64) = sint x + 1"
proof -
  assume "x \<noteq> MaxInt64"
  then have "sint x < 2 ^ 63 - 1" by (simp add: sint64_neq_Max)
  then have "signed_take_bit 63 (sint x + 1) = sint x + 1"
    using sint64_range(1) [of x] by (intro signed_take_bit_int_eq_self) auto
  then show ?thesis by (simp add: sint_word_add)
qed

lemma sint64_succ_Max: "sint (MaxInt64 + 1) = - (2 ^ 63)"
  by (simp add: MaxInt64_def)

lemma sdiv2_bounds:
  "- (2 ^ 63) \<le> (k::int) \<Longrightarrow> k < 2 ^ 63 \<Longrightarrow> - (2 ^ 63) \<le> k sdiv 2 \<and> k sdiv 2 < 2 ^ 63"
  by (auto simp: signed_divide_int_def sgn_if)

lemma sint_int64_quo2: "sint (int64_quo a 2) = sint a sdiv 2"
  using sdiv2_bounds [OF sint64_range [of a]] by (simp add: int64_quo_def sint64_of_int)

section \<open>Evaluating the model\<close>

text \<open>The definitions that compute a floating-point operation on given bits.\<close>

lemmas f64_eval =
  f64_mul_def int64_to_f64_def f64_round_def f64_pack_def rne_shift_def bitlen.simps
  f64_is_nan_def f64_is_inf_def f64_is_finite_def f64_mant_def f64_expo_def
  f64_to_int64_def f64_trunc_def f64_Inf_def f64_NaN_def
  f64_half_def f64_tenth_def f64_third_def Let_def

lemma int64_to_f64_examples:
  "int64_to_f64 1 = F64 False 1023 0"
  "int64_to_f64 (- 1) = F64 True 1023 0"
  "int64_to_f64 0 = F64 False 0 0"
  "int64_to_f64 6 = F64 False 1025 0x8000000000000"
  "int64_to_f64 0x20000000000001 = F64 False 1076 0"
  "int64_to_f64 0x20000000000003 = F64 False 1076 2"
  "int64_to_f64 MaxInt64 = F64 False 1086 0"
  "int64_to_f64 MinInt64 = F64 True 1086 0"
  by (simp_all add: f64_eval MaxInt64_def MinInt64_def)

text \<open>
  Products whose bits are known: \<open>0.1 * 0.1\<close>, \<open>0.1 * 3\<close>, \<open>6 * (1/3)\<close> (the exact
  product \<open>2 - 2 ^ - 53\<close> is a tie and rounds to \<open>2\<close>), the smallest subnormal times
  \<open>0.5\<close> and \<open>0.75\<close>, and an overflow.
\<close>

lemma f64_mul_examples:
  "f64_mul f64_tenth f64_tenth = F64 False 1016 0x47AE147AE147C"
  "f64_mul f64_tenth (F64 False 1024 0x8000000000000) = F64 False 1021 0x3333333333334"
  "f64_mul (int64_to_f64 6) f64_third = F64 False 1024 0"
  "f64_mul (F64 False 0 1) f64_half = F64 False 0 0"
  "f64_mul (F64 False 0 1) (F64 False 1022 0x8000000000000) = F64 False 0 1"
  "f64_mul (F64 False 2046 0xFFFFFFFFFFFFF) (F64 True 1024 0) = F64 True 2047 0"
  by (simp_all add: f64_eval)

lemma f64_to_int64_examples:
  "f64_to_int64 indef (F64 False 1024 0x4000000000000) = 2"
  "f64_to_int64 indef (F64 True 1024 0x4000000000000) = - 2"
  "f64_to_int64 indef f64_tenth = 0"
  "f64_to_int64 indef (F64 True 1086 0) = MinInt64"
  "f64_to_int64 indef (F64 False 1086 0) = indef (F64 False 1086 0)"
  "f64_to_int64 indef f64_NaN = indef f64_NaN"
  by (simp_all add: f64_eval MinInt64_def)

section \<open>Bounds on rounded results\<close>

subsection \<open>Bit length and rounding of naturals\<close>

lemma bitlen_0 [simp]: "bitlen 0 = 0"
  by (simp add: bitlen.simps)

lemma bitlen_upper: "m < 2 ^ bitlen m"
proof (induction m rule: bitlen.induct)
  case (1 m)
  show ?case
  proof (cases "m = 0")
    case True
    then show ?thesis by simp
  next
    case False
    then have "m div 2 < 2 ^ bitlen (m div 2)" using "1" by simp
    then have "m < 2 * 2 ^ bitlen (m div 2)" by linarith
    then show ?thesis using False by (subst bitlen.simps) simp
  qed
qed

lemma bitlen_lower: "0 < m \<Longrightarrow> 2 ^ (bitlen m - 1) \<le> m"
proof (induction m rule: bitlen.induct)
  case (1 m)
  show ?case
  proof (cases "m div 2 = 0")
    case True
    then have "bitlen m = 1" using "1.prems" by (subst bitlen.simps) simp
    then show ?thesis using "1.prems" by simp
  next
    case False
    then have ih: "2 ^ (bitlen (m div 2) - 1) \<le> m div 2" using "1" by simp
    have pos: "0 < bitlen (m div 2)" using False by (subst bitlen.simps) simp
    have "bitlen m = Suc (bitlen (m div 2))" using "1.prems" by (subst bitlen.simps) simp
    then have "(2::nat) ^ (bitlen m - 1) = 2 * 2 ^ (bitlen (m div 2) - 1)"
      using pos by (cases "bitlen (m div 2)") simp_all
    then show ?thesis using ih by linarith
  qed
qed

lemma bitlen_le: "m < 2 ^ k \<Longrightarrow> bitlen m \<le> k"
proof (cases "m = 0")
  case True
  then show ?thesis by simp
next
  case False
  assume lt: "m < 2 ^ k"
  have "(2::nat) ^ (bitlen m - 1) \<le> m" using bitlen_lower [of m] False by simp
  then have "(2::nat) ^ (bitlen m - 1) < 2 ^ k" using lt by (rule le_less_trans)
  then have "bitlen m - 1 < k" by (rule power_less_imp_less_exp [rotated]) simp
  then show ?thesis by simp
qed

lemma bitlen_pos: "0 < m \<Longrightarrow> 0 < bitlen m"
  by (subst bitlen.simps) simp

lemma rne_shift_le: "m \<le> b * 2 ^ n \<Longrightarrow> rne_shift m n \<le> b"
proof (cases "n = 0")
  case True
  assume "m \<le> b * 2 ^ n"
  then show ?thesis using True by (simp add: rne_shift_def)
next
  case n0: False
  assume le: "m \<le> b * 2 ^ n"
  have d: "m div 2 ^ n \<le> b" using div_le_mono [OF le, of "2 ^ n"] by simp
  show ?thesis
  proof (cases "m mod 2 ^ n = 0")
    case True
    then show ?thesis using d n0 by (simp add: rne_shift_def Let_def)
  next
    case nz: False
    have "m div 2 ^ n < b"
    proof (rule ccontr)
      assume "\<not> m div 2 ^ n < b"
      then have "m div 2 ^ n = b" using d by simp
      then have "m = b * 2 ^ n + m mod 2 ^ n" using div_mult_mod_eq [of m "2 ^ n"] by simp
      then show False using le nz by simp
    qed
    then show ?thesis using n0 by (simp add: rne_shift_def Let_def)
  qed
qed

lemma rne_shift_ge: "b * 2 ^ n \<le> m \<Longrightarrow> b \<le> rne_shift m n"
proof -
  assume "b * 2 ^ n \<le> m"
  then have "b \<le> m div 2 ^ n" by (simp add: less_eq_div_iff_mult_less_eq)
  then show ?thesis by (auto simp: rne_shift_def Let_def)
qed

subsection \<open>The fields of a packed float\<close>

lemma unat_frac_of_nat: "M < 2 ^ 52 \<Longrightarrow> unat (of_nat M :: 52 word) = M"
  by (simp add: unat_of_nat)

lemma exp_field_of_int:
  assumes "1 \<le> k" "k \<le> 2046"
  shows "unat (of_int k :: 11 word) = nat k" "(of_int k :: 11 word) \<noteq> 0" "(of_int k :: 11 word) \<noteq> 2047"
proof -
  have "uint (of_int k :: 11 word) = k" using assms by (simp add: uint_word_of_int)
  then show u: "unat (of_int k :: 11 word) = nat k" by (simp add: unat_eq_nat_uint)
  show "(of_int k :: 11 word) \<noteq> 0"
  proof
    assume "(of_int k :: 11 word) = 0"
    then have "unat (of_int k :: 11 word) = 0" by simp
    then show False using u assms by simp
  qed
  show "(of_int k :: 11 word) \<noteq> 2047"
  proof
    assume "(of_int k :: 11 word) = 2047"
    then have "unat (of_int k :: 11 word) = 2047" by simp
    then show False using u assms by simp
  qed
qed

lemma f64_pack_carry:
  assumes "q \<le> 970"
  shows "f64_pack s (2 ^ 53) q = F64 s (of_int (q + 1076)) 0"
proof -
  have "\<not> 2047 \<le> q + 1 + 1075" using assms by simp
  moreover have "q + 1 + 1075 = q + 1076" by simp
  ultimately show ?thesis unfolding f64_pack_def Let_def by simp
qed

lemma f64_pack_sub: "M < 2 ^ 52 \<Longrightarrow> f64_pack s M q = F64 s 0 (of_nat M)"
  by (simp add: f64_pack_def Let_def)

lemma f64_pack_normal:
  "2 ^ 52 \<le> M \<Longrightarrow> M < 2 ^ 53 \<Longrightarrow> q \<le> 971 \<Longrightarrow> f64_pack s M q = F64 s (of_int (q + 1075)) (of_nat (M - 2 ^ 52))"
  by (simp add: f64_pack_def Let_def)

lemma f64_fields_normal:
  assumes "1 \<le> k" "k \<le> 2046" "f < 2 ^ 52"
  shows "f64_is_finite (F64 s (of_int k) (of_nat f))"
        "f64_mant (F64 s (of_int k) (of_nat f)) = 2 ^ 52 + f"
        "f64_expo (F64 s (of_int k) (of_nat f)) = k - 1075"
proof -
  define w :: "11 word" where "w = of_int k"
  have w: "unat w = nat k" "w \<noteq> 0" "w \<noteq> 2047"
    unfolding w_def using exp_field_of_int [OF assms(1,2)] by blast+
  have f: "unat (of_nat f :: 52 word) = f" using assms(3) by (rule unat_frac_of_nat)
  show "f64_is_finite (F64 s (of_int k) (of_nat f))"
    unfolding w_def [symmetric] using w by (simp add: f64_is_finite_def)
  show "f64_mant (F64 s (of_int k) (of_nat f)) = 2 ^ 52 + f"
    unfolding w_def [symmetric] using w f by (simp add: f64_mant_def)
  show "f64_expo (F64 s (of_int k) (of_nat f)) = k - 1075"
    unfolding w_def [symmetric] using w assms(1) by (simp add: f64_expo_def)
qed

lemma f64_fields_sub:
  assumes "f < 2 ^ 52"
  shows "f64_is_finite (F64 s 0 (of_nat f))"
        "f64_mant (F64 s 0 (of_nat f)) = f"
        "f64_expo (F64 s 0 (of_nat f)) = - 1074"
  using unat_frac_of_nat [OF assms]
  by (simp_all add: f64_is_finite_def f64_mant_def f64_expo_def)

lemma f64_pack_fields:
  assumes "M \<le> 2 ^ 53" "- 1074 \<le> q" "M < 2 ^ 52 \<longrightarrow> q = - 1074" "q \<le> 971" "M = 2 ^ 53 \<longrightarrow> q \<le> 970"
  shows "f64_is_finite (f64_pack s M q) \<and> f64_sign (f64_pack s M q) = s \<and>
         f64_mant (f64_pack s M q) = (if M = 2 ^ 53 then 2 ^ 52 else M) \<and>
         f64_expo (f64_pack s M q) = (if M = 2 ^ 53 then q + 1 else q)"
proof -
  consider (carry) "M = 2 ^ 53" | (sub) "M < 2 ^ 52" | (normal) "2 ^ 52 \<le> M" "M < 2 ^ 53"
    using assms(1) by linarith
  then show ?thesis
  proof cases
    case carry
    then have q: "q \<le> 970" using assms(5) by simp
    have k: "1 \<le> q + 1076" "q + 1076 \<le> 2046" using assms(2) q by simp_all
    have p: "f64_pack s M q = F64 s (of_int (q + 1076)) (of_nat 0)"
      using carry f64_pack_carry [OF q, of s] by simp
    have z: "(0::nat) < 2 ^ 52" by simp
    show ?thesis unfolding p using f64_fields_normal [OF k z, of s] carry by simp
  next
    case sub
    have p: "f64_pack s M q = F64 s 0 (of_nat M)" using sub by (rule f64_pack_sub)
    show ?thesis unfolding p using f64_fields_sub [OF sub, of s] sub assms(3) by simp
  next
    case normal
    have k: "1 \<le> q + 1075" "q + 1075 \<le> 2046" using assms by simp_all
    have p: "f64_pack s M q = F64 s (of_int (q + 1075)) (of_nat (M - 2 ^ 52))"
      using normal assms(4) by (rule f64_pack_normal)
    have f: "M - 2 ^ 52 < 2 ^ 52" using normal by simp
    show ?thesis unfolding p using f64_fields_normal [OF k f, of s] normal by simp
  qed
qed

subsection \<open>The significand chosen by \<open>f64_round\<close>\<close>

lemma pow2_le: "a \<le> b \<Longrightarrow> (2::nat) ^ a \<le> 2 ^ b"
  by (rule power_increasing) simp_all

lemma f64_round_significand:
  fixes m :: nat and e q :: int and M :: nat
  assumes m: "0 < m"
    and q: "q = max (e + int (bitlen m) - 53) (- 1074)"
    and M: "M = (if q \<le> e then m * 2 ^ nat (e - q) else rne_shift m (nat (q - e)))"
  shows "M \<le> 2 ^ 53" "M < 2 ^ 52 \<longrightarrow> q = - 1074"
proof -
  let ?k = "bitlen m"
  have up: "m < 2 ^ ?k" by (rule bitlen_upper)
  have lo: "2 ^ (?k - 1) \<le> m" using m by (rule bitlen_lower)
  have kpos: "0 < ?k" using m by (rule bitlen_pos)
  have qge: "e + int ?k - 53 \<le> q" using q by simp
  show "M \<le> 2 ^ 53"
  proof (cases "q \<le> e")
    case True
    have "?k + nat (e - q) \<le> 53" using qge True by linarith
    then have "(2::nat) ^ (?k + nat (e - q)) \<le> 2 ^ 53" by (rule pow2_le)
    then have B: "(2::nat) ^ ?k * 2 ^ nat (e - q) \<le> 2 ^ 53" by (simp only: power_add)
    have A: "m * 2 ^ nat (e - q) < 2 ^ ?k * 2 ^ nat (e - q)" using up by simp
    have "m * 2 ^ nat (e - q) < 2 ^ 53" using A B by (rule less_le_trans)
    then show ?thesis using True M by simp
  next
    case False
    have "?k \<le> 53 + nat (q - e)" using qge False by linarith
    then have "(2::nat) ^ ?k \<le> 2 ^ (53 + nat (q - e))" by (rule pow2_le)
    then have "m \<le> 2 ^ 53 * 2 ^ nat (q - e)" using up by (simp add: power_add)
    then have "rne_shift m (nat (q - e)) \<le> 2 ^ 53" by (rule rne_shift_le)
    then show ?thesis using False M by simp
  qed
  show "M < 2 ^ 52 \<longrightarrow> q = - 1074"
  proof (rule impI, rule ccontr)
    assume small: "M < 2 ^ 52" and "q \<noteq> - 1074"
    then have qeq: "q = e + int ?k - 53" using q by (simp add: max_def split: if_splits)
    show False
    proof (cases "q \<le> e")
      case True
      have "(?k - 1) + nat (e - q) = 52" using qeq True kpos by linarith
      then have "(2::nat) ^ 52 = 2 ^ (?k - 1) * 2 ^ nat (e - q)" by (simp flip: power_add)
      also have "\<dots> \<le> m * 2 ^ nat (e - q)" using lo by simp
      finally show False using small True M by simp
    next
      case False
      have "52 + nat (q - e) = ?k - 1" using qeq False kpos by linarith
      then have "(2::nat) ^ 52 * 2 ^ nat (q - e) = 2 ^ (?k - 1)" by (simp only: power_add [symmetric])
      then have "2 ^ 52 * 2 ^ nat (q - e) \<le> m" using lo by simp
      then have "2 ^ 52 \<le> rne_shift m (nat (q - e))" by (rule rne_shift_ge)
      then show False using small False M by simp
    qed
  qed
qed

lemma f64_round_significand_le:
  fixes m b :: nat and e q t :: int and M :: nat
  assumes m: "0 < m"
    and q: "q = max (e + int (bitlen m) - 53) (- 1074)"
    and M: "M = (if q \<le> e then m * 2 ^ nat (e - q) else rne_shift m (nat (q - e)))"
    and et: "e \<le> t" and t: "- 1074 \<le> t" and b: "b < 2 ^ 53"
    and le: "m \<le> b * 2 ^ nat (t - e)"
  shows "q \<le> t" "M \<le> b * 2 ^ nat (t - q)"
proof -
  let ?k = "bitlen m"
  have "m < 2 ^ 53 * 2 ^ nat (t - e)"
  proof -
    have "b * 2 ^ nat (t - e) < 2 ^ 53 * 2 ^ nat (t - e)" using b by simp
    with le show ?thesis by (rule le_less_trans)
  qed
  then have "m < 2 ^ (53 + nat (t - e))" by (simp add: power_add)
  then have "?k \<le> 53 + nat (t - e)" by (rule bitlen_le)
  then have "e + int ?k - 53 \<le> t" using et by linarith
  then show qt: "q \<le> t" using q t by simp
  show "M \<le> b * 2 ^ nat (t - q)"
  proof (cases "q \<le> e")
    case True
    have "nat (t - e) + nat (e - q) = nat (t - q)" using True et by linarith
    then have "(2::nat) ^ nat (t - q) = 2 ^ nat (t - e) * 2 ^ nat (e - q)" by (simp flip: power_add)
    moreover have "m * 2 ^ nat (e - q) \<le> b * 2 ^ nat (t - e) * 2 ^ nat (e - q)"
      using le by (rule mult_le_mono1)
    ultimately show ?thesis using True M by (simp add: mult.assoc)
  next
    case False
    have "nat (t - q) + nat (q - e) = nat (t - e)" using False qt by linarith
    then have "(2::nat) ^ nat (t - e) = 2 ^ nat (t - q) * 2 ^ nat (q - e)" by (simp flip: power_add)
    then have "m \<le> (b * 2 ^ nat (t - q)) * 2 ^ nat (q - e)" using le by (simp add: mult.assoc)
    then have "rne_shift m (nat (q - e)) \<le> b * 2 ^ nat (t - q)" by (rule rne_shift_le)
    then show ?thesis using False M by simp
  qed
qed

lemma f64_round_bounded:
  fixes m b :: nat and e t :: int
  assumes et: "e \<le> t" and t: "- 1074 \<le> t" and t': "t \<le> 970" and b: "b < 2 ^ 53"
    and le: "m \<le> b * 2 ^ nat (t - e)"
  shows "f64_is_finite (f64_round s m e) \<and> f64_sign (f64_round s m e) = s \<and>
         f64_expo (f64_round s m e) \<le> t \<and>
         f64_mant (f64_round s m e) \<le> b * 2 ^ nat (t - f64_expo (f64_round s m e))"
proof (cases "m = 0")
  case True
  then show ?thesis using t
    by (simp add: f64_round_def f64_is_finite_def f64_expo_def f64_mant_def)
next
  case False
  then have m: "0 < m" by simp
  define q where "q = max (e + int (bitlen m) - 53) (- 1074)"
  define M where "M = (if q \<le> e then m * 2 ^ nat (e - q) else rne_shift m (nat (q - e)))"
  have r: "f64_round s m e = f64_pack s M q"
    using False by (simp add: f64_round_def Let_def q_def M_def)
  have M53: "M \<le> 2 ^ 53" and sub: "M < 2 ^ 52 \<longrightarrow> q = - 1074"
    using f64_round_significand [OF m q_def M_def] by blast+
  have qt: "q \<le> t" and Mb: "M \<le> b * 2 ^ nat (t - q)"
    using f64_round_significand_le [OF m q_def M_def et t b le] by blast+
  have q0: "- 1074 \<le> q" by (simp add: q_def)
  have q970: "q \<le> 970" using qt t' by simp
  have f: "f64_is_finite (f64_pack s M q) \<and> f64_sign (f64_pack s M q) = s \<and>
           f64_mant (f64_pack s M q) = (if M = 2 ^ 53 then 2 ^ 52 else M) \<and>
           f64_expo (f64_pack s M q) = (if M = 2 ^ 53 then q + 1 else q)"
    using M53 q0 sub by (rule f64_pack_fields) (use q970 in simp_all)
  show ?thesis
  proof (cases "M = 2 ^ 53")
    case carry: True
    have "q \<noteq> t"
    proof
      assume "q = t"
      then have "M \<le> b" using Mb by simp
      then show False using carry b by simp
    qed
    then have q1: "q + 1 \<le> t" using qt by simp
    define Y where "Y = b * 2 ^ nat (t - (q + 1))"
    have "nat (t - q) = Suc (nat (t - (q + 1)))" using q1 by linarith
    then have "b * 2 ^ nat (t - q) = 2 * Y" by (simp add: Y_def)
    moreover have "(2::nat) ^ 53 = 2 * 2 ^ 52" by simp
    ultimately have "2 * 2 ^ 52 \<le> 2 * Y" using Mb carry by (simp only:)
    then have "2 ^ 52 \<le> Y" by simp
    then show ?thesis using f carry q1 by (simp add: r Y_def)
  next
    case False
    then show ?thesis using f qt Mb by (simp add: r)
  qed
qed

lemma int64_to_f64_bounded:
  "f64_is_finite (int64_to_f64 n) \<and> f64_sign (int64_to_f64 n) = (sint n < 0) \<and>
   f64_expo (int64_to_f64 n) \<le> 11 \<and>
   f64_mant (int64_to_f64 n) \<le> 2 ^ 52 * 2 ^ nat (11 - f64_expo (int64_to_f64 n))"
proof -
  have "\<bar>sint n\<bar> \<le> 2 ^ 63" using sint64_range [of n] by linarith
  then have "nat \<bar>sint n\<bar> \<le> nat (2 ^ 63)" by (rule nat_mono)
  then have le: "nat \<bar>sint n\<bar> \<le> 2 ^ 52 * 2 ^ nat (11 - 0)" by simp
  have b: "(2::nat) ^ 52 < 2 ^ 53" by simp
  show ?thesis unfolding int64_to_f64_def
    by (rule f64_round_bounded [OF _ _ _ b le]) simp_all
qed

subsection \<open>Scaling an \<^verbatim>\<open>int64\<close> by a ratio between 0 and 1\<close>

lemma f64_mant_lt: "f64_mant x < 2 ^ 53"
proof -
  have "unat (f64_frac x) < 2 ^ 52" using unsigned_less [of "f64_frac x"] by simp
  then show ?thesis by (simp add: f64_mant_def)
qed

lemma f64_mant_normal: "f64_expo x \<noteq> - 1074 \<Longrightarrow> 2 ^ 52 \<le> f64_mant x"
  by (auto simp: f64_mant_def f64_expo_def split: if_splits)

lemma powi2_pos: "0 < (2::real) powi e"
  by (simp add: power_int_def)

lemma f64_val_unit:
  assumes pos: "0 < f64_val r" and lt: "f64_val r < 1"
  shows "\<not> f64_sign r" "0 < f64_mant r" "f64_expo r \<le> - 53"
proof -
  have nn: "0 \<le> real (f64_mant r) * 2 powi f64_expo r"
    using powi2_pos [of "f64_expo r"] by simp
  show s: "\<not> f64_sign r"
  proof
    assume "f64_sign r"
    then have "f64_val r = - (real (f64_mant r) * 2 powi f64_expo r)" by (simp add: f64_val_def)
    then show False using nn pos by simp
  qed
  then have v: "f64_val r = real (f64_mant r) * 2 powi f64_expo r" by (simp add: f64_val_def)
  show "0 < f64_mant r"
  proof (rule ccontr)
    assume "\<not> 0 < f64_mant r"
    then show False using pos v by simp
  qed
  show "f64_expo r \<le> - 53"
  proof (rule ccontr)
    assume "\<not> f64_expo r \<le> - 53"
    then have e: "- 52 \<le> f64_expo r" by simp
    then have "2 ^ 52 \<le> f64_mant r" by (intro f64_mant_normal) simp
    then have m: "(2::real) ^ 52 \<le> real (f64_mant r)"
      by (metis of_nat_le_iff of_nat_numeral of_nat_power)
    have "(2::real) powi (- 52) \<le> 2 powi f64_expo r" using e by (intro power_int_increasing) simp_all
    then have "(2::real) ^ 52 * 2 powi (- 52) \<le> real (f64_mant r) * 2 powi f64_expo r"
      using m by (intro mult_mono) simp_all
    moreover have "(2::real) ^ 52 * 2 powi (- 52) = 1" by (simp add: power_int_minus)
    ultimately show False using lt v by simp
  qed
qed

lemma f64_mul_finite:
  "f64_is_finite x \<Longrightarrow> f64_is_finite y \<Longrightarrow>
   f64_mul x y = f64_round (f64_sign x \<noteq> f64_sign y) (f64_mant x * f64_mant y) (f64_expo x + f64_expo y)"
  by (simp add: f64_mul_def f64_is_finite_def f64_is_nan_def f64_is_inf_def)

lemma f64_scale_bounded:
  assumes fin: "f64_is_finite r" and pos: "0 < f64_val r" and lt: "f64_val r < 1"
  shows "f64_is_finite (f64_mul (int64_to_f64 n) r) \<and>
         f64_sign (f64_mul (int64_to_f64 n) r) = (sint n < 0) \<and>
         f64_expo (f64_mul (int64_to_f64 n) r) \<le> 10 \<and>
         f64_mant (f64_mul (int64_to_f64 n) r)
           \<le> (2 ^ 53 - 1) * 2 ^ nat (10 - f64_expo (f64_mul (int64_to_f64 n) r))"
proof -
  let ?x = "int64_to_f64 n"
  have x: "f64_is_finite ?x" "f64_sign ?x = (sint n < 0)" "f64_expo ?x \<le> 11"
    "f64_mant ?x \<le> 2 ^ 52 * 2 ^ nat (11 - f64_expo ?x)"
    using int64_to_f64_bounded [of n] by blast+
  have r: "\<not> f64_sign r" "f64_expo r \<le> - 53" using f64_val_unit [OF pos lt] by blast+
  have mr: "f64_mant r \<le> 2 ^ 53 - 1" using f64_mant_lt [of r] by simp
  have mul: "f64_mul ?x r = f64_round (sint n < 0) (f64_mant ?x * f64_mant r) (f64_expo ?x + f64_expo r)"
    using x(1,2) fin r(1) by (simp add: f64_mul_finite)
  have et: "f64_expo ?x + f64_expo r \<le> 10" using x(3) r(2) by simp
  have "52 + nat (11 - f64_expo ?x) \<le> nat (10 - (f64_expo ?x + f64_expo r))"
    using x(3) r(2) by linarith
  then have "(2::nat) ^ (52 + nat (11 - f64_expo ?x)) \<le> 2 ^ nat (10 - (f64_expo ?x + f64_expo r))"
    by (rule power_increasing) simp
  then have "2 ^ 52 * 2 ^ nat (11 - f64_expo ?x) \<le> (2::nat) ^ nat (10 - (f64_expo ?x + f64_expo r))"
    by (simp only: power_add)
  with x(4) have "f64_mant ?x \<le> 2 ^ nat (10 - (f64_expo ?x + f64_expo r))" by (rule order_trans)
  then have "f64_mant ?x * f64_mant r \<le> 2 ^ nat (10 - (f64_expo ?x + f64_expo r)) * (2 ^ 53 - 1)"
    using mr by (rule mult_le_mono)
  then have le: "f64_mant ?x * f64_mant r \<le> (2 ^ 53 - 1) * 2 ^ nat (10 - (f64_expo ?x + f64_expo r))"
    by (simp only: mult.commute)
  have b: "(2::nat) ^ 53 - 1 < 2 ^ 53" by simp
  show ?thesis unfolding mul
    by (rule f64_round_bounded [OF et _ _ b le]) simp_all
qed

subsection \<open>Truncation and the floor of the value\<close>

lemma f64_trunc_floor:
  "f64_trunc x = (if f64_sign x then - \<lfloor>real (f64_mant x) * 2 powi f64_expo x\<rfloor>
                  else \<lfloor>real (f64_mant x) * 2 powi f64_expo x\<rfloor>)"
proof -
  let ?m = "f64_mant x" and ?e = "f64_expo x"
  have "\<lfloor>real ?m * 2 powi ?e\<rfloor> =
        (if 0 \<le> ?e then int ?m * 2 ^ nat ?e else int ?m div 2 ^ nat (- ?e))"
  proof (cases "0 \<le> ?e")
    case True
    then have "real ?m * 2 powi ?e = of_int (int ?m * 2 ^ nat ?e)"
      by (simp add: power_int_nonneg_exp)
    then have "\<lfloor>real ?m * 2 powi ?e\<rfloor> = int ?m * 2 ^ nat ?e" by (simp only: floor_of_int)
    then show ?thesis using True by simp
  next
    case False
    then have "(2::real) powi ?e = 1 / 2 ^ nat (- ?e)"
      by (simp add: power_int_def power_one_over inverse_eq_divide)
    then have "real ?m * 2 powi ?e = of_int (int ?m) / of_int (2 ^ nat (- ?e))" by simp
    then have "\<lfloor>real ?m * 2 powi ?e\<rfloor> = int ?m div 2 ^ nat (- ?e)"
      by (simp only: floor_divide_of_int_eq)
    then show ?thesis using False by simp
  qed
  then show ?thesis by (simp add: f64_trunc_def Let_def)
qed

lemma f64_magnitude_bound:
  assumes e: "f64_expo x \<le> 10" and m: "f64_mant x \<le> (2 ^ 53 - 1) * 2 ^ nat (10 - f64_expo x)"
  shows "\<lfloor>real (f64_mant x) * 2 powi f64_expo x\<rfloor> < 2 ^ 63"
proof -
  let ?m = "f64_mant x" and ?e = "f64_expo x"
  have "real ?m \<le> real ((2 ^ 53 - 1) * 2 ^ nat (10 - ?e))" using m by (rule of_nat_mono)
  then have "real ?m * 2 powi ?e \<le> real ((2 ^ 53 - 1) * 2 ^ nat (10 - ?e)) * 2 powi ?e"
    using powi2_pos [of ?e] by (intro mult_right_mono) simp_all
  also have "\<dots> = (2 ^ 53 - 1) * (2 powi (10 - ?e) * 2 powi ?e)"
    using e by (simp add: power_int_nonneg_exp)
  also have "2 powi (10 - ?e) * (2::real) powi ?e = 2 powi 10"
    by (simp flip: power_int_add)
  finally have "real ?m * 2 powi ?e \<le> (2 ^ 53 - 1) * 2 ^ 10" by simp
  then have "real ?m * 2 powi ?e < 2 ^ 63" by simp
  then have "real ?m * 2 powi ?e < of_int (2 ^ 63)" by simp
  then show ?thesis by (simp only: floor_less_iff)
qed

lemma f64_clamp_floor:
  assumes fin: "f64_is_finite p" and e: "f64_expo p \<le> 10"
    and m: "f64_mant p \<le> (2 ^ 53 - 1) * 2 ^ nat (10 - f64_expo p)"
  shows "sint (if sint (f64_to_int64 indef p) < 1 then 1 else f64_to_int64 indef p)
           = max 1 \<lfloor>f64_val p\<rfloor>"
proof -
  define v where "v = real (f64_mant p) * 2 powi f64_expo p"
  define F where "F = \<lfloor>v\<rfloor>"
  have v0: "0 \<le> v" using powi2_pos [of "f64_expo p"] by (simp add: v_def)
  then have F0: "0 \<le> F" by (simp add: F_def)
  have F63: "F < 2 ^ 63" unfolding F_def v_def using e m by (rule f64_magnitude_bound)
  show ?thesis
  proof (cases "f64_sign p")
    case False
    then have val: "\<lfloor>f64_val p\<rfloor> = F" by (simp add: f64_val_def v_def F_def)
    have tr: "f64_trunc p = F" using False by (simp add: f64_trunc_floor v_def F_def)
    have rng: "- (2 ^ 63) \<le> F" using F0 by simp
    have c: "f64_to_int64 indef p = word_of_int F"
      using fin rng F63 by (simp add: f64_to_int64_def tr)
    have s: "sint (word_of_int F :: int64) = F" using rng F63 by (rule sint64_of_int)
    show ?thesis unfolding c val using s by (simp add: max_def)
  next
    case True
    then have "f64_val p = - v" by (simp add: f64_val_def v_def)
    moreover have "\<lfloor>- v\<rfloor> \<le> 0" using v0 by (simp add: floor_le_iff)
    ultimately have val: "\<lfloor>f64_val p\<rfloor> \<le> 0" by simp
    have tr: "f64_trunc p = - F" using True by (simp add: f64_trunc_floor v_def F_def)
    have rng: "- (2 ^ 63) \<le> - F" "- F < 2 ^ 63" using F0 F63 by simp_all
    have c: "f64_to_int64 indef p = word_of_int (- F)"
      using fin rng by (simp only: f64_to_int64_def tr if_True simp_thms)
    have s: "sint (word_of_int (- F) :: int64) = - F" using rng by (rule sint64_of_int)
    have "sint (word_of_int (- F) :: int64) < 1" using s F0 by simp
    then show ?thesis unfolding c using val by (simp add: max_def)
  qed
qed

lemma multiplicative_decrease_floor:
  assumes "f64_is_finite (backoffRatio l)" "0 < f64_val (backoffRatio l)" "f64_val (backoffRatio l) < 1"
    and "sint (tx_limit t) \<le> sint (limit l)"
  shows "sint (limit (multiplicative_decrease indef l t))
           = max 1 \<lfloor>f64_val (f64_mul (int64_to_f64 (limit l)) (backoffRatio l))\<rfloor>"
proof -
  let ?p = "f64_mul (int64_to_f64 (limit l)) (backoffRatio l)"
  have p: "f64_is_finite ?p" "f64_expo ?p \<le> 10" "f64_mant ?p \<le> (2 ^ 53 - 1) * 2 ^ nat (10 - f64_expo ?p)"
    using f64_scale_bounded [OF assms(1-3), of "limit l"] by blast+
  show ?thesis using f64_clamp_floor [OF p, of indef] assms(4)
    by (simp add: multiplicative_decrease_def Let_def)
qed

subsection \<open>Rounding is to the nearest float\<close>

text \<open>
  \<open>rne_shift m n\<close> is a multiple of \<open>2 ^ n\<close> nearest to \<open>m\<close>, and the even one of the
  two when \<open>m\<close> is half way between them.
\<close>

lemma rne_shift_nearest:
  assumes "0 < n"
  shows "2 * m \<le> 2 * (rne_shift m n * 2 ^ n) + 2 ^ n"
    and "2 * (rne_shift m n * 2 ^ n) \<le> 2 * m + 2 ^ n"
    and "2 * m = 2 * (rne_shift m n * 2 ^ n) + 2 ^ n \<or> 2 * (rne_shift m n * 2 ^ n) = 2 * m + 2 ^ n
           \<longrightarrow> even (rne_shift m n)"
proof -
  define d r h R where "d = m div 2 ^ n" and "r = m mod 2 ^ n" and "h = (2::nat) ^ (n - 1)"
    and "R = rne_shift m n"
  have m: "m = d * (2 * h) + r"
  proof -
    have "(2::nat) ^ n = 2 * h" using assms by (cases n) (simp_all add: h_def)
    then show ?thesis unfolding d_def r_def by (simp only: div_mult_mod_eq)
  qed
  have r: "r < 2 * h"
  proof -
    have "(2::nat) ^ n = 2 * h" using assms by (cases n) (simp_all add: h_def)
    moreover have "0 < h" by (simp add: h_def)
    ultimately show ?thesis unfolding r_def by simp
  qed
  have p: "(2::nat) ^ n = 2 * h" using assms by (cases n) (simp_all add: h_def)
  have R: "R = (if h < r \<or> (r = h \<and> odd d) then d + 1 else d)"
    using assms by (simp add: R_def rne_shift_def Let_def d_def r_def h_def)
  have 1: "2 * m \<le> 2 * (R * (2 * h)) + 2 * h"
    using r by (simp add: R m algebra_simps)
  have 2: "2 * (R * (2 * h)) \<le> 2 * m + 2 * h"
    using r by (auto simp: R m algebra_simps)
  have 3: "2 * m = 2 * (R * (2 * h)) + 2 * h \<or> 2 * (R * (2 * h)) = 2 * m + 2 * h \<longrightarrow> even R"
    using r by (auto simp: R m algebra_simps)
  show "2 * m \<le> 2 * (rne_shift m n * 2 ^ n) + 2 ^ n"
    using 1 unfolding p R_def .
  show "2 * (rne_shift m n * 2 ^ n) \<le> 2 * m + 2 ^ n"
    using 2 unfolding p R_def .
  show "2 * m = 2 * (rne_shift m n * 2 ^ n) + 2 ^ n \<or> 2 * (rne_shift m n * 2 ^ n) = 2 * m + 2 ^ n
           \<longrightarrow> even (rne_shift m n)"
    using 3 unfolding p R_def .
qed

lemma f64_pack_val:
  assumes "M \<le> 2 ^ 53" "- 1074 \<le> q" "M < 2 ^ 52 \<longrightarrow> q = - 1074" "q \<le> 971" "M = 2 ^ 53 \<longrightarrow> q \<le> 970"
  shows "f64_val (f64_pack s M q) = (if s then - 1 else 1) * real M * 2 powi q"
proof -
  have f: "f64_sign (f64_pack s M q) = s"
    "f64_mant (f64_pack s M q) = (if M = 2 ^ 53 then 2 ^ 52 else M)"
    "f64_expo (f64_pack s M q) = (if M = 2 ^ 53 then q + 1 else q)"
    using f64_pack_fields [OF assms, of s] by blast+
  show ?thesis
  proof (cases "M = 2 ^ 53")
    case True
    have "(2::real) ^ 52 * 2 powi (q + 1) = 2 ^ 53 * 2 powi q"
      by (simp add: power_int_add)
    then show ?thesis unfolding f64_val_def f using True by simp
  next
    case False
    then show ?thesis unfolding f64_val_def f by simp
  qed
qed

lemma f64_round_val:
  fixes m :: nat and e q :: int and M :: nat
  assumes m: "0 < m"
    and q: "q = max (e + int (bitlen m) - 53) (- 1074)"
    and M: "M = (if q \<le> e then m * 2 ^ nat (e - q) else rne_shift m (nat (q - e)))"
    and q971: "q \<le> 971" and carry: "M = 2 ^ 53 \<longrightarrow> q \<le> 970"
  shows "f64_val (f64_round s m e) = (if s then - 1 else 1) * real M * 2 powi q"
proof -
  have r: "f64_round s m e = f64_pack s M q"
    using m by (simp add: f64_round_def Let_def q M)
  have M53: "M \<le> 2 ^ 53" and sub: "M < 2 ^ 52 \<longrightarrow> q = - 1074"
    using f64_round_significand [OF m q M] by blast+
  have q0: "- 1074 \<le> q" by (simp add: q)
  show ?thesis unfolding r using M53 q0 sub q971 carry by (rule f64_pack_val)
qed

text \<open>A number with at most 53 significant bits in the exponent range rounds to itself.\<close>

lemma f64_round_exact:
  assumes k: "bitlen m \<le> 53" and e: "- 1074 \<le> e" and top: "e + int (bitlen m) \<le> 1024"
  shows "f64_val (f64_round s m e) = (if s then - 1 else 1) * real m * 2 powi e"
proof (cases "m = 0")
  case True
  then show ?thesis by (simp add: f64_round_def f64_val_def f64_mant_def)
next
  case False
  then have m: "0 < m" by simp
  define q where "q = max (e + int (bitlen m) - 53) (- 1074)"
  define M where "M = (if q \<le> e then m * 2 ^ nat (e - q) else rne_shift m (nat (q - e)))"
  have qe: "q \<le> e" using k e by (simp add: q_def)
  then have Mm: "M = m * 2 ^ nat (e - q)" by (simp add: M_def)
  have "bitlen m + nat (e - q) \<le> 53" using qe by (simp add: q_def) linarith
  then have "(2::nat) ^ (bitlen m + nat (e - q)) \<le> 2 ^ 53" by (rule pow2_le)
  then have B: "(2::nat) ^ bitlen m * 2 ^ nat (e - q) \<le> 2 ^ 53" by (simp only: power_add)
  have A: "m * 2 ^ nat (e - q) < 2 ^ bitlen m * 2 ^ nat (e - q)" using bitlen_upper [of m] by simp
  have "M < 2 ^ 53" unfolding Mm using A B by (rule less_le_trans)
  then have nc: "M = 2 ^ 53 \<longrightarrow> q \<le> 970" by simp
  have q971: "q \<le> 971" using top by (simp add: q_def)
  have "f64_val (f64_round s m e) = (if s then - 1 else 1) * real M * 2 powi q"
    using m q_def M_def q971 nc by (rule f64_round_val)
  moreover have "real M * 2 powi q = real m * 2 powi e"
  proof -
    have "real M = real m * 2 powi (e - q)" using qe by (simp add: Mm power_int_nonneg_exp)
    then have "real M * 2 powi q = real m * (2 powi (e - q) * 2 powi q)" by simp
    also have "2 powi (e - q) * (2::real) powi q = 2 powi e" by (simp flip: power_int_add)
    finally show ?thesis .
  qed
  ultimately show ?thesis by simp
qed

text \<open>
  Any other number rounds to a neighbour in the grid of its quantum, at most half a
  quantum away (and to the even one in a tie, by \<open>rne_shift_nearest\<close>).
\<close>

lemma f64_round_nearest:
  fixes m :: nat and e q :: int
  assumes m: "0 < m"
    and q: "q = max (e + int (bitlen m) - 53) (- 1074)"
    and q970: "q \<le> 970"
  shows "\<bar>f64_val (f64_round s m e) - (if s then - 1 else 1) * real m * 2 powi e\<bar> \<le> 2 powi (q - 1)"
proof -
  define M where "M = (if q \<le> e then m * 2 ^ nat (e - q) else rne_shift m (nat (q - e)))"
  have v: "f64_val (f64_round s m e) = (if s then - 1 else 1) * real M * 2 powi q"
    using m q M_def by (rule f64_round_val) (use q970 in simp_all)
  have "\<bar>real M * 2 powi q - real m * 2 powi e\<bar> \<le> 2 powi (q - 1)"
  proof (cases "q \<le> e")
    case True
    then have "real M = real m * 2 powi (e - q)" by (simp add: M_def power_int_nonneg_exp)
    then have "real M * 2 powi q = real m * (2 powi (e - q) * 2 powi q)" by simp
    also have "2 powi (e - q) * (2::real) powi q = 2 powi e" by (simp flip: power_int_add)
    finally have "real M * 2 powi q - real m * 2 powi e = 0" by simp
    then show ?thesis using powi2_pos [of "q - 1"] by simp
  next
    case False
    define n where "n = nat (q - e)"
    have n: "0 < n" using False by (simp add: n_def)
    have Mr: "M = rne_shift m n" using False by (simp add: M_def n_def)
    have nat1: "2 * m \<le> 2 * (M * 2 ^ n) + 2 ^ n" and nat2: "2 * (M * 2 ^ n) \<le> 2 * m + 2 ^ n"
      unfolding Mr using rne_shift_nearest [OF n, of m] by blast+
    have "real (2 * m) \<le> real (2 * (M * 2 ^ n) + 2 ^ n)" using nat1 by (rule of_nat_mono)
    then have r1: "2 * real m \<le> 2 * (real M * 2 ^ n) + 2 ^ n" by simp
    have "real (2 * (M * 2 ^ n)) \<le> real (2 * m + 2 ^ n)" using nat2 by (rule of_nat_mono)
    then have r2: "2 * (real M * 2 ^ n) \<le> 2 * real m + 2 ^ n" by simp
    have d: "\<bar>real M * 2 ^ n - real m\<bar> \<le> 2 ^ n / 2"
    proof -
      define A C where "A = real M * 2 ^ n" and "C = (2::real) ^ n"
      have "2 * real m \<le> 2 * A + C" "2 * A \<le> 2 * real m + C"
        using r1 r2 by (simp_all add: A_def C_def)
      then have "\<bar>A - real m\<bar> \<le> C / 2" by linarith
      then show ?thesis by (simp add: A_def C_def)
    qed
    have pn: "(2::real) ^ n = 2 powi (q - e)" using False by (simp add: n_def power_int_nonneg_exp)
    have "real M * 2 powi q - real m * 2 powi e = (real M * 2 ^ n - real m) * 2 powi e"
    proof -
      have "2 powi (q - e) * (2::real) powi e = 2 powi q" by (simp flip: power_int_add)
      then show ?thesis by (simp add: pn algebra_simps)
    qed
    then have "\<bar>real M * 2 powi q - real m * 2 powi e\<bar> = \<bar>real M * 2 ^ n - real m\<bar> * 2 powi e"
      using powi2_pos [of e] by (simp add: abs_mult)
    also have "\<dots> \<le> 2 ^ n / 2 * 2 powi e"
      using d powi2_pos [of e] by (intro mult_right_mono) simp_all
    also have "\<dots> = 2 powi (q - 1)"
    proof -
      have "2 powi (q - e) * (2::real) powi e = 2 powi q" by (simp flip: power_int_add)
      moreover have "(2::real) powi q = 2 * 2 powi (q - 1)" by (simp add: power_int_diff)
      ultimately show ?thesis by (simp add: pn)
    qed
    finally show ?thesis .
  qed
  moreover have "\<bar>f64_val (f64_round s m e) - (if s then - 1 else 1) * real m * 2 powi e\<bar>
      = \<bar>real M * 2 powi q - real m * 2 powi e\<bar>"
    unfolding v by (cases s) (simp_all add: abs_minus_commute)
  ultimately show ?thesis by simp
qed

text \<open>The conversion of an \<^verbatim>\<open>int64\<close> of magnitude below \<open>2 ^ 53\<close> is exact.\<close>

lemma int64_to_f64_exact:
  assumes "\<bar>sint n\<bar> < 2 ^ 53"
  shows "f64_val (int64_to_f64 n) = real_of_int (sint n)"
proof -
  define k where "k = sint n"
  have "nat \<bar>k\<bar> < 2 ^ 53" using assms by (simp add: k_def)
  then have b: "bitlen (nat \<bar>k\<bar>) \<le> 53" by (rule bitlen_le)
  have "f64_val (f64_round (k < 0) (nat \<bar>k\<bar>) 0) = (if k < 0 then - 1 else 1) * real (nat \<bar>k\<bar>) * 2 powi 0"
    using b by (intro f64_round_exact) simp_all
  moreover have "(if k < 0 then - 1 else 1) * real (nat \<bar>k\<bar>) = real_of_int k" by simp
  ultimately show ?thesis unfolding int64_to_f64_def k_def [symmetric] by simp
qed

text \<open>
  The product of two finite floats is the exact product of their values where that has at
  most 53 significant bits, and is at most half a quantum away from it otherwise (unless
  it overflows).
\<close>

lemma f64_val_mult:
  "f64_val x * f64_val y
     = (if f64_sign x \<noteq> f64_sign y then - 1 else 1) * real (f64_mant x * f64_mant y)
         * 2 powi (f64_expo x + f64_expo y)"
  by (simp add: f64_val_def power_int_add)

lemma f64_mul_exact:
  assumes "f64_is_finite x" "f64_is_finite y"
    and "bitlen (f64_mant x * f64_mant y) \<le> 53" "- 1074 \<le> f64_expo x + f64_expo y"
    and "f64_expo x + f64_expo y + int (bitlen (f64_mant x * f64_mant y)) \<le> 1024"
  shows "f64_val (f64_mul x y) = f64_val x * f64_val y"
  unfolding f64_mul_finite [OF assms(1,2)] f64_val_mult
  using assms(3-5) by (rule f64_round_exact)

lemma f64_mul_nearest:
  assumes "f64_is_finite x" "f64_is_finite y" "0 < f64_mant x * f64_mant y"
    and "q = max (f64_expo x + f64_expo y + int (bitlen (f64_mant x * f64_mant y)) - 53) (- 1074)"
    and "q \<le> 970"
  shows "\<bar>f64_val (f64_mul x y) - f64_val x * f64_val y\<bar> \<le> 2 powi (q - 1)"
  unfolding f64_mul_finite [OF assms(1,2)] f64_val_mult
  using assms(3-5) by (rule f64_round_nearest)

subsection \<open>Rounding is to nearest, ties to even\<close>

text \<open>The exponent of a float is at least that of the subnormal numbers.\<close>

lemma f64_expo_ge: "- 1074 \<le> f64_expo w"
proof (cases "f64_exp w = 0")
  case True
  then show ?thesis by (simp add: f64_expo_def)
next
  case False
  then have "0 < unat (f64_exp w)" by (simp add: unat_gt_0)
  then have "1 \<le> int (unat (f64_exp w))" by linarith
  then show ?thesis using False unfolding f64_expo_def by simp
qed

text \<open>No float lies strictly between two neighbours of the grid of a quantum.\<close>

lemma f64_gap:
  fixes L :: nat and q :: int
  assumes q: "- 1074 \<le> q" and L: "q \<noteq> - 1074 \<Longrightarrow> 2 ^ 52 \<le> L"
  shows "real (f64_mant w) * 2 powi f64_expo w \<le> real L * 2 powi q \<or>
         real L * 2 powi q + 2 powi q \<le> real (f64_mant w) * 2 powi f64_expo w"
proof (cases "q \<le> f64_expo w")
  case True
  define N where "N = f64_mant w * 2 ^ nat (f64_expo w - q)"
  have "(2::real) powi f64_expo w = 2 powi (f64_expo w - q) * 2 powi q"
    by (simp flip: power_int_add)
  also have "(2::real) powi (f64_expo w - q) = 2 ^ nat (f64_expo w - q)"
    using True by (simp add: power_int_nonneg_exp)
  finally have W: "real (f64_mant w) * 2 powi f64_expo w = real N * 2 powi q"
    by (simp add: N_def)
  have "N \<le> L \<or> L + 1 \<le> N" by linarith
  then show ?thesis
  proof
    assume "N \<le> L"
    then have "real N * 2 powi q \<le> real L * 2 powi q"
      using powi2_pos [of q] by (intro mult_right_mono) simp_all
    then show ?thesis by (simp add: W)
  next
    assume "L + 1 \<le> N"
    then have "real (L + 1) \<le> real N" by (rule of_nat_mono)
    then have "real (L + 1) * 2 powi q \<le> real N * 2 powi q"
      using powi2_pos [of q] by (intro mult_right_mono) simp_all
    then show ?thesis by (simp add: W algebra_simps)
  qed
next
  case False
  then have lt: "f64_expo w \<le> q - 1" by simp
  then have "q \<noteq> - 1074" using f64_expo_ge [of w] by simp
  then have "2 ^ 52 \<le> L" by (rule L)
  then have "real (2 ^ 52) \<le> real L" by (rule of_nat_mono)
  then have L52: "(2::real) ^ 52 \<le> real L" by simp
  have "real (f64_mant w) \<le> real (2 ^ 53)" using f64_mant_lt [of w] by (intro of_nat_mono) simp
  then have m53: "real (f64_mant w) \<le> 2 ^ 53" by simp
  have "(2::real) powi f64_expo w \<le> 2 powi (q - 1)" using lt by (intro power_int_increasing) simp_all
  then have "real (f64_mant w) * 2 powi f64_expo w \<le> 2 ^ 53 * 2 powi (q - 1)"
    using m53 powi2_pos [of "q - 1"] by (intro mult_mono) simp_all
  also have "(2::real) ^ 53 * 2 powi (q - 1) = 2 ^ 52 * 2 powi q" by (simp add: power_int_diff)
  also have "\<dots> \<le> real L * 2 powi q"
    using L52 powi2_pos [of q] by (intro mult_right_mono) simp_all
  finally show ?thesis by simp
qed

text \<open>
  The significand \<open>f64_round\<close> chooses is one of the two neighbours of the value on the
  grid of its quantum, the nearer one, and the even one of the two when the value is half
  way between them; a normal result has its 53 bits.
\<close>

lemma f64_round_bracket:
  fixes m :: nat and e q :: int
  assumes m: "0 < m" and q: "q = max (e + int (bitlen m) - 53) (- 1074)" and q970: "q \<le> 970"
  shows "\<exists>L M :: nat.
     f64_is_finite (f64_round s m e) \<and> f64_sign (f64_round s m e) = s \<and>
     real (f64_mant (f64_round s m e)) * 2 powi f64_expo (f64_round s m e) = real M * 2 powi q \<and>
     (even M \<longrightarrow> even (f64_mant (f64_round s m e))) \<and>
     (M = L \<or> M = L + 1) \<and>
     real L * 2 powi q \<le> real m * 2 powi e \<and>
     real m * 2 powi e \<le> real L * 2 powi q + 2 powi q \<and>
     2 * \<bar>real M * 2 powi q - real m * 2 powi e\<bar> \<le> 2 powi q \<and>
     (2 * (real m * 2 powi e) = 2 * (real L * 2 powi q) + 2 powi q \<longrightarrow> even M) \<and>
     (q \<noteq> - 1074 \<longrightarrow> 2 ^ 52 \<le> L)"
proof -
  let ?z = "f64_round s m e"
  define M where "M = (if q \<le> e then m * 2 ^ nat (e - q) else rne_shift m (nat (q - e)))"
  define U where "U = (2::real) powi q"
  define y where "y = real m * 2 powi e"
  have U: "0 < U" by (simp add: U_def powi2_pos)
  have r: "?z = f64_pack s M q"
    using m by (simp add: f64_round_def Let_def q M_def)
  have M53: "M \<le> 2 ^ 53" and sub: "M < 2 ^ 52 \<longrightarrow> q = - 1074"
    using f64_round_significand [OF m q M_def] by blast+
  have q0: "- 1074 \<le> q" by (simp add: q)
  have q971: "q \<le> 971" and cq: "M = 2 ^ 53 \<longrightarrow> q \<le> 970" using q970 by simp_all
  have pk: "f64_is_finite ?z" "f64_sign ?z = s"
    "f64_mant ?z = (if M = 2 ^ 53 then 2 ^ 52 else M)"
    "f64_expo ?z = (if M = 2 ^ 53 then q + 1 else q)"
    unfolding r using f64_pack_fields [OF M53 q0 sub q971 cq, of s] by blast+
  have mag: "real (f64_mant ?z) * 2 powi f64_expo ?z = real M * U"
  proof (cases "M = 2 ^ 53")
    case True
    have "(2::real) ^ 52 * 2 powi (q + 1) = 2 ^ 53 * 2 powi q" by (simp add: power_int_add)
    then show ?thesis unfolding pk U_def using True by simp
  next
    case False
    then show ?thesis unfolding pk U_def by simp
  qed
  have ev: "even M \<longrightarrow> even (f64_mant ?z)" unfolding pk by simp
  have "\<exists>L. (M = L \<or> M = L + 1) \<and> real L * U \<le> y \<and> y \<le> real L * U + U \<and>
          2 * \<bar>real M * U - y\<bar> \<le> U \<and> (2 * y = 2 * (real L * U) + U \<longrightarrow> even M) \<and>
          (q \<noteq> - 1074 \<longrightarrow> 2 ^ 52 \<le> L)"
  proof (cases "q \<le> e")
    case True
    then have "real M = real m * 2 powi (e - q)" by (simp add: M_def power_int_nonneg_exp)
    then have "real M * U = real m * (2 powi (e - q) * 2 powi q)" by (simp add: U_def)
    also have "2 powi (e - q) * (2::real) powi q = 2 powi e" by (simp flip: power_int_add)
    finally have MU: "real M * U = y" by (simp add: y_def)
    have "q \<noteq> - 1074 \<longrightarrow> 2 ^ 52 \<le> M" using sub by auto
    then show ?thesis using MU U by (intro exI [of _ M]) simp
  next
    case False
    define n where "n = nat (q - e)"
    define d where "d = m div 2 ^ n"
    define E where "E = (2::real) powi e"
    have n: "0 < n" using False by (simp add: n_def)
    have E: "0 < E" by (simp add: E_def powi2_pos)
    have Mr: "M = rne_shift m n" using False by (simp add: M_def n_def)
    have UE: "U = 2 ^ n * E"
    proof -
      have "(2::real) ^ n = 2 powi (q - e)" using False by (simp add: n_def power_int_nonneg_exp)
      moreover have "2 powi (q - e) * (2::real) powi e = 2 powi q" by (simp flip: power_int_add)
      ultimately show ?thesis by (simp add: U_def E_def)
    qed
    have Md: "M = d \<or> M = d + 1" using n by (auto simp: Mr rne_shift_def Let_def d_def)
    have lo: "d * 2 ^ n \<le> m" unfolding d_def by simp
    have hi: "m \<le> d * 2 ^ n + 2 ^ n"
    proof -
      have "m = d * 2 ^ n + m mod 2 ^ n" unfolding d_def by (simp only: div_mult_mod_eq)
      moreover have "m mod 2 ^ n \<le> 2 ^ n" by simp
      ultimately show ?thesis by linarith
    qed
    have LU: "real L' * U = real (L' * 2 ^ n) * E" for L' :: nat by (simp add: UE)
    have c1: "real d * U \<le> y"
    proof -
      have "real (d * 2 ^ n) \<le> real m" using lo by (rule of_nat_mono)
      then have "real (d * 2 ^ n) * E \<le> real m * E" using E by (intro mult_right_mono) simp_all
      then show ?thesis by (simp only: LU y_def E_def)
    qed
    have c2: "y \<le> real d * U + U"
    proof -
      have "real m \<le> real (d * 2 ^ n + 2 ^ n)" using hi by (rule of_nat_mono)
      then have "real m * E \<le> real (d * 2 ^ n + 2 ^ n) * E" using E by (intro mult_right_mono) simp_all
      also have "\<dots> = real (d * 2 ^ n) * E + 2 ^ n * E" by (simp add: algebra_simps)
      finally have fin: "real m * E \<le> real (d * 2 ^ n) * E + 2 ^ n * E" .
      have "real d * U + U = real (d * 2 ^ n) * E + 2 ^ n * E" by (simp add: UE)
      moreover have "y = real m * E" by (simp add: y_def E_def)
      ultimately show ?thesis using fin by linarith
    qed
    have c3: "2 * \<bar>real M * U - y\<bar> \<le> U"
    proof -
      have nat1: "2 * m \<le> 2 * (M * 2 ^ n) + 2 ^ n" and nat2: "2 * (M * 2 ^ n) \<le> 2 * m + 2 ^ n"
        unfolding Mr using rne_shift_nearest [OF n, of m] by blast+
      have "real (2 * m) \<le> real (2 * (M * 2 ^ n) + 2 ^ n)" using nat1 by (rule of_nat_mono)
      then have "real (2 * m) * E \<le> real (2 * (M * 2 ^ n) + 2 ^ n) * E"
        using E by (intro mult_right_mono) simp_all
      then have r1: "2 * y \<le> 2 * (real M * U) + U" by (simp add: y_def E_def UE algebra_simps)
      have "real (2 * (M * 2 ^ n)) \<le> real (2 * m + 2 ^ n)" using nat2 by (rule of_nat_mono)
      then have "real (2 * (M * 2 ^ n)) * E \<le> real (2 * m + 2 ^ n) * E"
        using E by (intro mult_right_mono) simp_all
      then have r2: "2 * (real M * U) \<le> 2 * y + U" by (simp add: y_def E_def UE algebra_simps)
      define A where "A = real M * U"
      have "2 * y \<le> 2 * A + U" "2 * A \<le> 2 * y + U" using r1 r2 by (simp_all add: A_def)
      then have "2 * \<bar>A - y\<bar> \<le> U" by (cases "y \<le> A") (simp_all add: abs_if)
      then show ?thesis by (simp add: A_def)
    qed
    have c4: "2 * y = 2 * (real d * U) + U \<longrightarrow> even M"
    proof
      assume "2 * y = 2 * (real d * U) + U"
      then have "real (2 * m) * E = real (2 * (d * 2 ^ n) + 2 ^ n) * E"
        by (simp add: y_def E_def UE algebra_simps)
      then have "real (2 * m) = real (2 * (d * 2 ^ n) + 2 ^ n)" using E by simp
      then have tie: "2 * m = 2 * (d * 2 ^ n) + 2 ^ n" by (simp only: of_nat_eq_iff)
      have "2 * m = 2 * (M * 2 ^ n) + 2 ^ n \<or> 2 * (M * 2 ^ n) = 2 * m + 2 ^ n"
        using Md tie by (auto simp: algebra_simps)
      then show "even M" unfolding Mr using rne_shift_nearest(3) [OF n, of m] by blast
    qed
    have c5: "q \<noteq> - 1074 \<longrightarrow> 2 ^ 52 \<le> d"
    proof
      assume "q \<noteq> - 1074"
      then have qeq: "q = e + int (bitlen m) - 53" using q by (simp add: max_def split: if_splits)
      have kpos: "0 < bitlen m" using m by (rule bitlen_pos)
      have "52 + n = bitlen m - 1" using qeq False kpos by (simp add: n_def)
      then have "(2::nat) ^ 52 * 2 ^ n = 2 ^ (bitlen m - 1)" by (simp only: power_add [symmetric])
      then have "2 ^ 52 * 2 ^ n \<le> m" using bitlen_lower [OF m] by simp
      then show "2 ^ 52 \<le> d" unfolding d_def by (simp add: less_eq_div_iff_mult_less_eq)
    qed
    show ?thesis using Md c1 c2 c3 c4 c5 by (intro exI [of _ d]) simp
  qed
  then obtain L where L: "(M = L \<or> M = L + 1)" "real L * U \<le> y" "y \<le> real L * U + U"
          "2 * \<bar>real M * U - y\<bar> \<le> U" "(2 * y = 2 * (real L * U) + U \<longrightarrow> even M)"
          "(q \<noteq> - 1074 \<longrightarrow> 2 ^ 52 \<le> L)" by blast
  show ?thesis
    using pk(1,2) mag ev L unfolding U_def y_def
    by (intro exI [of _ L] exI [of _ M]) blast
qed

lemma nearest_on_grid:
  fixes a P W U y :: real
  assumes "0 \<le> a" "0 \<le> W" "P = a \<or> P = a + U" "a \<le> y" "y \<le> a + U"
    and "2 * \<bar>P - y\<bar> \<le> U" "W \<le> a \<or> a + U \<le> W"
  shows "\<bar>P - y\<bar> \<le> \<bar>W - y\<bar>" "\<bar>P - y\<bar> \<le> \<bar>- W - y\<bar>"
    and "W \<noteq> P \<Longrightarrow> \<bar>W - y\<bar> = \<bar>P - y\<bar> \<Longrightarrow> 2 * y = 2 * a + U"
    and "W \<noteq> 0 \<or> P \<noteq> 0 \<Longrightarrow> \<bar>- W - y\<bar> = \<bar>P - y\<bar> \<Longrightarrow> 2 * y = 2 * a + U"
  using assms by (auto simp: abs_if split: if_splits)

text \<open>
  A finite float whose magnitude is one of the two neighbours \<open>L\<close>, \<open>L + 1\<close> of \<open>y\<close> on the
  grid of the quantum \<open>2 powi q\<close> of \<open>y\<close>, the nearer one, and the even one when \<open>y\<close> is half
  way, is the float nearest to \<open>y\<close>.
\<close>

lemma f64_nearest_even_grid:
  fixes L M :: nat and q :: int and y :: real
  assumes fin: "f64_is_finite z"
    and mag: "real (f64_mant z) * 2 powi f64_expo z = real M * 2 powi q"
    and ev: "even M \<Longrightarrow> even (f64_mant z)"
    and Mc: "M = L \<or> M = L + 1"
    and lo: "real L * 2 powi q \<le> y" and hi: "y \<le> real L * 2 powi q + 2 powi q"
    and near: "2 * \<bar>real M * 2 powi q - y\<bar> \<le> 2 powi q"
    and tie: "2 * y = 2 * (real L * 2 powi q) + 2 powi q \<Longrightarrow> even M"
    and q0: "- 1074 \<le> q" and nrm: "q \<noteq> - 1074 \<Longrightarrow> 2 ^ 52 \<le> L"
  shows "f64_nearest_even z ((if f64_sign z then - 1 else 1) * y)"
proof -
  define U where "U = (2::real) powi q"
  define a where "a = real L * U"
  define P where "P = real M * U"
  define s where "s = f64_sign z"
  have U: "0 < U" by (simp add: U_def powi2_pos)
  have a0: "0 \<le> a" using U by (simp add: a_def)
  have Pa: "P = a \<or> P = a + U" using Mc by (auto simp: P_def a_def algebra_simps)
  have vz: "f64_val z = (if s then - 1 else 1) * P"
    using mag by (simp add: f64_val_def s_def P_def U_def)
  have grid: "\<bar>P - y\<bar> \<le> \<bar>W - y\<bar> \<and> \<bar>P - y\<bar> \<le> \<bar>- W - y\<bar> \<and>
              (W \<noteq> P \<and> \<bar>W - y\<bar> = \<bar>P - y\<bar> \<longrightarrow> even M) \<and>
              ((W \<noteq> 0 \<or> P \<noteq> 0) \<and> \<bar>- W - y\<bar> = \<bar>P - y\<bar> \<longrightarrow> even M)"
    if W: "W = real (f64_mant w) * 2 powi f64_expo w" for w W
  proof -
    have W0: "0 \<le> W" using powi2_pos [of "f64_expo w"] by (simp add: W)
    have gap: "W \<le> a \<or> a + U \<le> W"
      unfolding W a_def U_def using f64_gap [OF q0, of L w] nrm by blast
    have lo': "a \<le> y" and hi': "y \<le> a + U" and near': "2 * \<bar>P - y\<bar> \<le> U"
      using lo hi near by (simp_all add: a_def P_def U_def)
    note g = nearest_on_grid [OF a0 W0 Pa lo' hi' near' gap]
    have "2 * y = 2 * a + U \<Longrightarrow> even M" using tie by (simp add: a_def U_def)
    then show ?thesis using g by blast
  qed
  have vw: "f64_val w = (if f64_sign w then - 1 else 1) * (real (f64_mant w) * 2 powi f64_expo w)" for w
    by (simp add: f64_val_def)
  have c1: "\<bar>f64_val z - (if s then - 1 else 1) * y\<bar> \<le> \<bar>f64_val w - (if s then - 1 else 1) * y\<bar>" for w
  proof -
    define W where "W = real (f64_mant w) * 2 powi f64_expo w"
    have g: "\<bar>P - y\<bar> \<le> \<bar>W - y\<bar>" "\<bar>P - y\<bar> \<le> \<bar>- W - y\<bar>" using grid [OF W_def] by blast+
    have "\<bar>- P + y\<bar> = \<bar>P - y\<bar>" "\<bar>- W + y\<bar> = \<bar>W - y\<bar>" "\<bar>W + y\<bar> = \<bar>- W - y\<bar>" by linarith+
    then show ?thesis using g unfolding vz vw [of w] W_def [symmetric] by (cases s; cases "f64_sign w") simp_all
  qed
  have c2: "even (f64_mant z)"
    if ne: "f64_val w \<noteq> f64_val z"
      and eq: "\<bar>f64_val w - (if s then - 1 else 1) * y\<bar> = \<bar>f64_val z - (if s then - 1 else 1) * y\<bar>" for w
  proof -
    define W where "W = real (f64_mant w) * 2 powi f64_expo w"
    have g: "W \<noteq> P \<and> \<bar>W - y\<bar> = \<bar>P - y\<bar> \<longrightarrow> even M"
      "(W \<noteq> 0 \<or> P \<noteq> 0) \<and> \<bar>- W - y\<bar> = \<bar>P - y\<bar> \<longrightarrow> even M" using grid [OF W_def] by blast+
    have ab: "\<bar>- P + y\<bar> = \<bar>P - y\<bar>" "\<bar>- W + y\<bar> = \<bar>W - y\<bar>" "\<bar>W + y\<bar> = \<bar>- W - y\<bar>" by linarith+
    have "even M"
      using g ne eq ab unfolding vz vw [of w] W_def [symmetric]
      by (cases s; cases "f64_sign w") auto
    then show ?thesis by (rule ev)
  qed
  show ?thesis unfolding f64_nearest_even_def s_def [symmetric] using fin c1 c2 by blast
qed

text \<open>Rounding a nonzero significand gives the float nearest to its value, ties to even.\<close>

lemma f64_round_nearest_even:
  fixes m :: nat and e q :: int
  assumes m: "0 < m" and q: "q = max (e + int (bitlen m) - 53) (- 1074)" and q970: "q \<le> 970"
  shows "f64_nearest_even (f64_round s m e) ((if s then - 1 else 1) * real m * 2 powi e)"
proof -
  let ?z = "f64_round s m e"
  obtain L M :: nat where fin: "f64_is_finite ?z" and sg: "f64_sign ?z = s"
    and mag: "real (f64_mant ?z) * 2 powi f64_expo ?z = real M * 2 powi q"
    and ev: "even M \<longrightarrow> even (f64_mant ?z)"
    and Mc: "M = L \<or> M = L + 1"
    and lo: "real L * 2 powi q \<le> real m * 2 powi e"
    and hi: "real m * 2 powi e \<le> real L * 2 powi q + 2 powi q"
    and near: "2 * \<bar>real M * 2 powi q - real m * 2 powi e\<bar> \<le> 2 powi q"
    and tie: "2 * (real m * 2 powi e) = 2 * (real L * 2 powi q) + 2 powi q \<longrightarrow> even M"
    and nrm: "q \<noteq> - 1074 \<longrightarrow> 2 ^ 52 \<le> L"
    using f64_round_bracket [OF m q q970, of s] by blast
  have q0: "- 1074 \<le> q" by (simp add: q)
  have "f64_nearest_even ?z ((if f64_sign ?z then - 1 else 1) * (real m * 2 powi e))"
    using fin mag _ Mc lo hi near _ q0
  proof (rule f64_nearest_even_grid)
    show "even M \<Longrightarrow> even (f64_mant ?z)" using ev by blast
    show "2 * (real m * 2 powi e) = 2 * (real L * 2 powi q) + 2 powi q \<Longrightarrow> even M" using tie by blast
    show "q \<noteq> - 1074 \<Longrightarrow> 2 ^ 52 \<le> L" using nrm by blast
  qed
  then show ?thesis by (simp add: sg mult.assoc)
qed

lemma f64_round_zero_nearest_even: "f64_nearest_even (f64_round s 0 e) 0"
proof -
  have z: "f64_val (F64 s 0 0) = 0" by (simp add: f64_val_def f64_mant_def)
  have "f64_is_finite (F64 s 0 0)" by (simp add: f64_is_finite_def)
  then show ?thesis unfolding f64_nearest_even_def f64_round_def using z by simp
qed

text \<open>The conversion of an \<^verbatim>\<open>int64\<close> is the float nearest to it.\<close>

lemma int64_to_f64_nearest_even: "f64_nearest_even (int64_to_f64 n) (real_of_int (sint n))"
proof (cases "sint n = 0")
  case True
  then show ?thesis unfolding int64_to_f64_def using f64_round_zero_nearest_even [of False 0] by simp
next
  case False
  define k where "k = sint n"
  define m where "m = nat \<bar>k\<bar>"
  have m: "0 < m" using False by (simp add: m_def k_def)
  have "\<bar>k\<bar> \<le> 2 ^ 63" using sint64_range [of n] unfolding k_def by linarith
  then have "m \<le> nat (2 ^ 63)" unfolding m_def by (rule nat_mono)
  then have "m < 2 ^ 64" by simp
  then have b: "bitlen m \<le> 64" by (rule bitlen_le)
  define q where "q = max (0 + int (bitlen m) - 53) (- 1074)"
  have q: "q \<le> 970" using b by (simp add: q_def)
  have "f64_nearest_even (f64_round (k < 0) m 0) ((if k < 0 then - 1 else 1) * real m * 2 powi 0)"
    using m q_def q by (rule f64_round_nearest_even)
  moreover have "(if k < 0 then - 1 else 1) * real m = real_of_int k" by (simp add: m_def)
  ultimately show ?thesis unfolding int64_to_f64_def k_def [symmetric] m_def [symmetric] by simp
qed

text \<open>The product of two finite floats is the float nearest to the product of their values,
  unless it overflows.\<close>

lemma f64_mul_nearest_even:
  assumes x: "f64_is_finite x" and y: "f64_is_finite y"
    and b: "f64_expo x + f64_expo y + int (bitlen (f64_mant x * f64_mant y)) \<le> 1023"
  shows "f64_nearest_even (f64_mul x y) (f64_val x * f64_val y)"
proof (cases "f64_mant x * f64_mant y = 0")
  case True
  have "f64_nearest_even (f64_round (f64_sign x \<noteq> f64_sign y) 0 (f64_expo x + f64_expo y)) 0"
    by (rule f64_round_zero_nearest_even)
  then show ?thesis
    unfolding f64_mul_finite [OF x y] f64_val_mult True by simp
next
  case False
  then have m: "0 < f64_mant x * f64_mant y" by simp
  define q where "q = max (f64_expo x + f64_expo y + int (bitlen (f64_mant x * f64_mant y)) - 53) (- 1074)"
  have q: "q \<le> 970" using b by (simp add: q_def)
  show ?thesis unfolding f64_mul_finite [OF x y] f64_val_mult
    using m q_def q by (rule f64_round_nearest_even)
qed

lemma f64_scale_nearest_even:
  assumes fin: "f64_is_finite r" and pos: "0 < f64_val r" and lt: "f64_val r < 1"
  shows "f64_nearest_even (f64_mul (int64_to_f64 n) r) (f64_val (int64_to_f64 n) * f64_val r)"
proof -
  let ?x = "int64_to_f64 n"
  have x: "f64_is_finite ?x" "f64_expo ?x \<le> 11" using int64_to_f64_bounded [of n] by blast+
  have r: "f64_expo r \<le> - 53" using f64_val_unit [OF pos lt] by blast
  have "f64_mant ?x * f64_mant r < 2 ^ 53 * 2 ^ 53"
    using f64_mant_lt [of ?x] f64_mant_lt [of r] by (intro mult_strict_mono) simp_all
  then have "f64_mant ?x * f64_mant r < 2 ^ 106" by simp
  then have "bitlen (f64_mant ?x * f64_mant r) \<le> 106" by (rule bitlen_le)
  then have "f64_expo ?x + f64_expo r + int (bitlen (f64_mant ?x * f64_mant r)) \<le> 1023"
    using x(2) r by linarith
  with x(1) fin show ?thesis by (rule f64_mul_nearest_even)
qed

text \<open>
  Integers below \<open>2 ^ 53\<close> are floats, so the float nearest to a real \<open>v\<close> of that range lies
  between the integers around \<open>v\<close>: its floor is the floor of \<open>v\<close>, or one more when the
  rounding reached the next integer.
\<close>

lemma f64_of_small_int:
  assumes "\<bar>k\<bar> < 2 ^ 53"
  shows "\<exists>w. f64_is_finite w \<and> f64_val w = real_of_int k"
proof -
  define n :: int64 where "n = word_of_int k"
  have "- (2 ^ 63) \<le> k" "k < 2 ^ 63" using assms by simp_all
  then have "sint n = k" unfolding n_def by (rule sint64_of_int)
  then show ?thesis
    using int64_to_f64_bounded [of n] int64_to_f64_exact [of n] assms by auto
qed

lemma f64_nearest_even_floor:
  assumes ne: "f64_nearest_even p v" and v0: "0 \<le> v" and v53: "v < 2 ^ 53 - 1"
  shows "\<lfloor>v\<rfloor> \<le> \<lfloor>f64_val p\<rfloor>" "\<lfloor>f64_val p\<rfloor> \<le> \<lfloor>v\<rfloor> + 1"
    "\<lfloor>f64_val p\<rfloor> = \<lfloor>v\<rfloor> + 1 \<Longrightarrow> f64_val p = real_of_int \<lfloor>v\<rfloor> + 1"
proof -
  define F where "F = \<lfloor>v\<rfloor>"
  have F0: "0 \<le> F" using v0 by (simp add: F_def)
  have Fv: "real_of_int F \<le> v" "v < real_of_int F + 1" unfolding F_def by linarith+
  have "real_of_int F < 2 ^ 53 - 1" using Fv(1) v53 by linarith
  then have "real_of_int F < real_of_int (2 ^ 53 - 1)" by simp
  then have F53: "F < 2 ^ 53 - 1" by (simp only: of_int_less_iff)
  obtain w0 where w0: "f64_is_finite w0" "f64_val w0 = real_of_int F"
    using f64_of_small_int [of F] F0 F53 by auto
  obtain w1 where w1: "f64_is_finite w1" "f64_val w1 = real_of_int (F + 1)"
    using f64_of_small_int [of "F + 1"] F0 F53 by auto
  have near: "\<bar>f64_val p - v\<bar> \<le> \<bar>f64_val w - v\<bar>" if "f64_is_finite w" for w
    using ne that unfolding f64_nearest_even_def by blast
  have "\<bar>f64_val p - v\<bar> \<le> \<bar>real_of_int F - v\<bar>" using near [OF w0(1)] by (simp add: w0(2))
  then have lo: "real_of_int F \<le> f64_val p" using Fv by linarith
  have "\<bar>f64_val p - v\<bar> \<le> \<bar>real_of_int (F + 1) - v\<bar>" using near [OF w1(1)] by (simp only: w1(2))
  then have hi: "f64_val p \<le> real_of_int F + 1" using Fv by simp
  show "\<lfloor>v\<rfloor> \<le> \<lfloor>f64_val p\<rfloor>" using lo unfolding F_def [symmetric] by (simp add: le_floor_iff)
  have "\<lfloor>f64_val p\<rfloor> \<le> \<lfloor>real_of_int F + 1\<rfloor>" using hi by (rule floor_mono)
  then show "\<lfloor>f64_val p\<rfloor> \<le> \<lfloor>v\<rfloor> + 1" unfolding F_def [symmetric] by simp
  assume "\<lfloor>f64_val p\<rfloor> = \<lfloor>v\<rfloor> + 1"
  then have "real_of_int (F + 1) \<le> f64_val p" unfolding F_def [symmetric] by linarith
  then show "f64_val p = real_of_int \<lfloor>v\<rfloor> + 1" using hi unfolding F_def [symmetric] by simp
qed

text \<open>
  So for a limit below \<open>2 ^ 53\<close> the clamped floor of the \<^verbatim>\<open>float64\<close> product is the clamped
  floor of the exact product of the limit and the ratio, or one more.
\<close>

lemma f64_scale_floor_bounds:
  assumes fin: "f64_is_finite r" and pos: "0 < f64_val r" and lt: "f64_val r < 1"
    and n: "sint n < 2 ^ 53"
  shows "max 1 \<lfloor>real_of_int (sint n) * f64_val r\<rfloor>
           \<le> max 1 \<lfloor>f64_val (f64_mul (int64_to_f64 n) r)\<rfloor>"
    and "max 1 \<lfloor>f64_val (f64_mul (int64_to_f64 n) r)\<rfloor>
           \<le> max 1 \<lfloor>real_of_int (sint n) * f64_val r\<rfloor> + 1"
proof -
  let ?p = "f64_mul (int64_to_f64 n) r"
  define k where "k = sint n"
  define v where "v = real_of_int k * f64_val r"
  have both: "max 1 \<lfloor>v\<rfloor> \<le> max 1 \<lfloor>f64_val ?p\<rfloor> \<and> max 1 \<lfloor>f64_val ?p\<rfloor> \<le> max 1 \<lfloor>v\<rfloor> + 1"
  proof (cases "0 \<le> k")
    case True
    then have "\<bar>sint n\<bar> < 2 ^ 53" using n by (simp add: k_def)
    then have x: "f64_val (int64_to_f64 n) = real_of_int k" unfolding k_def by (rule int64_to_f64_exact)
    have ne: "f64_nearest_even ?p v"
      using f64_scale_nearest_even [OF fin pos lt, of n] unfolding x v_def .
    have k53: "real_of_int k \<le> 2 ^ 53 - 1"
    proof -
      have "k \<le> 2 ^ 53 - 1" using n by (simp add: k_def)
      then have "real_of_int k \<le> real_of_int (2 ^ 53 - 1)" by (simp only: of_int_le_iff)
      then show ?thesis by simp
    qed
    have k0: "0 \<le> real_of_int k" using True by simp
    have v0: "0 \<le> v" unfolding v_def using k0 pos by simp
    have v53: "v < 2 ^ 53 - 1"
    proof (cases "k = 0")
      case True
      then show ?thesis by (simp add: v_def)
    next
      case False
      then have "0 < real_of_int k" using k0 by simp
      then have "real_of_int k * f64_val r < real_of_int k * 1" using lt by (intro mult_strict_left_mono)
      then show ?thesis using k53 by (simp add: v_def)
    qed
    have "\<lfloor>v\<rfloor> \<le> \<lfloor>f64_val ?p\<rfloor>" "\<lfloor>f64_val ?p\<rfloor> \<le> \<lfloor>v\<rfloor> + 1"
      using f64_nearest_even_floor(1,2) [OF ne v0 v53] by blast+
    then show ?thesis by linarith
  next
    case False
    then have neg: "sint n < 0" by (simp add: k_def)
    have sg: "f64_sign ?p" using f64_scale_bounded [OF fin pos lt, of n] neg by simp
    have "0 \<le> real (f64_mant ?p) * 2 powi f64_expo ?p" using powi2_pos [of "f64_expo ?p"] by simp
    then have "f64_val ?p \<le> 0" using sg by (simp add: f64_val_def)
    then have p: "\<lfloor>f64_val ?p\<rfloor> \<le> 0" by (simp add: floor_le_iff)
    have "real_of_int k < 0" using False by simp
    then have "v < 0" unfolding v_def using pos by (simp add: mult_neg_pos)
    then have "\<lfloor>v\<rfloor> \<le> 0" by (simp add: floor_le_iff)
    then show ?thesis using p by simp
  qed
  show "max 1 \<lfloor>real_of_int (sint n) * f64_val r\<rfloor> \<le> max 1 \<lfloor>f64_val ?p\<rfloor>"
    using both unfolding v_def k_def by blast
  show "max 1 \<lfloor>f64_val ?p\<rfloor> \<le> max 1 \<lfloor>real_of_int (sint n) * f64_val r\<rfloor> + 1"
    using both unfolding v_def k_def by blast
qed

section \<open>The branches of \<^verbatim>\<open>finish\<close>\<close>

lemma finish_overload:
  "overload err \<Longrightarrow> finish indef l (Some t) err = Inr (multiplicative_decrease indef l t)"
  by (simp add: finish_def overload_def multiplicative_decrease_def Let_def)

lemma finish_overload_nil: "overload err \<Longrightarrow> finish indef l None err = Inl NilPointerDereference"
  by (simp add: finish_def overload_def Let_def)

lemma finish_other: "\<not> overload err \<Longrightarrow> finish indef l tx err = Inr (additive_increase l)"
  by (simp add: finish_def overload_def additive_increase_def Let_def sint_int64_quo2)

lemma overload_iff:
  "overload err \<longleftrightarrow>
     err = GRPCStatus Canceled \<or> err = GRPCStatus DeadlineExceeded \<or> err = GRPCStatus Unavailable"
  by (cases err)
     (auto simp: overload_def OK_def Canceled_def DeadlineExceeded_def Unavailable_def Unknown_def)

lemma not_overload_nil: "\<not> overload nil"
  by (simp add: overload_iff)

lemma step_Settle:
  "step indef l (Settle t err) =
     (if overload err then multiplicative_decrease indef l t else additive_increase l)"
  by (simp add: finish_overload finish_other)

declare step.simps(2) [simp del]

lemma inflight_multiplicative_decrease [simp]:
  "inflight (multiplicative_decrease indef l t) = inflight l"
  by (simp add: multiplicative_decrease_def Let_def)

lemma inflight_additive_increase [simp]: "inflight (additive_increase l) = inflight l"
  by (simp add: additive_increase_def)

lemma inflight_finish: "finish indef l tx err = Inr l' \<Longrightarrow> inflight l' = inflight l"
  by (cases "overload err"; cases tx) (auto simp: finish_overload finish_overload_nil finish_other)

lemma inflight_step_Settle [simp]: "inflight (step indef l (Settle t err)) = inflight l"
  by (simp add: step_Settle)

section \<open>Facts about \<^verbatim>\<open>start\<close> and sequences of calls\<close>

lemma start_reject: "sint (limit l) < sint (inflight l) \<Longrightarrow> start l = ((None, False), l)"
  by (simp add: start_def)

lemma start_admit:
  "\<not> sint (limit l) < sint (inflight l) \<Longrightarrow>
   start l = ((Some \<lparr>tx_inflight = inflight l + 1, tx_limit = limit l\<rparr>, True),
              l\<lparr>inflight := inflight l + 1\<rparr>)"
  by (simp add: start_def Let_def)

lemma limit_start [simp]: "limit (snd (start l)) = limit l"
  by (simp add: start_def Let_def)

lemma ratio_start [simp]: "backoffRatio (snd (start l)) = backoffRatio l"
  by (simp add: start_def Let_def)

lemma inflight_start_cases:
  "inflight (snd (start l)) = inflight l \<or>
   (inflight (snd (start l)) = inflight l + 1 \<and> snd (fst (start l)))"
  by (simp add: start_def Let_def)

lemma run_Nil [simp]: "run indef l [] = l"
  by (simp add: run_def)

lemma run_Cons [simp]: "run indef l (c # cs) = run indef (step indef l c) cs"
  by (simp add: run_def)

lemma run_snoc: "run indef l (cs @ [c]) = step indef (run indef l cs) c"
  by (simp add: run_def)

lemma run_take_Suc:
  "j < length cs \<Longrightarrow>
   run indef l (take (Suc j) cs) = step indef (run indef l (take j cs)) (cs ! j)"
  by (simp add: take_Suc_conv_app_nth run_snoc)

lemma run_replicate_Admit_limit [simp]: "limit (run indef l (replicate n Admit)) = limit l"
  by (induction n arbitrary: l) simp_all

text \<open>At the largest limit no call of \<^verbatim>\<open>start\<close> rejects: the count cannot be above it.\<close>

lemma run_admits_Max:
  "limit l = MaxInt64 \<Longrightarrow>
   run indef l (replicate n Admit) = l\<lparr>inflight := inflight l + of_nat n\<rparr>"
proof (induction n arbitrary: l)
  case 0
  then show ?case by simp
next
  case (Suc n)
  have nr: "\<not> sint (limit l) < sint (inflight l)"
    using sint64_range(2) [of "inflight l"] Suc.prems by (simp add: sint_MaxInt64)
  have "run indef l (replicate (Suc n) Admit) =
        run indef (l\<lparr>inflight := inflight l + 1\<rparr>) (replicate n Admit)"
    using start_admit [OF nr] by simp
  also have "\<dots> = l\<lparr>inflight := inflight l + 1 + of_nat n\<rparr>"
    using Suc.IH [of "l\<lparr>inflight := inflight l + 1\<rparr>"] Suc.prems by simp
  finally show ?case by (simp add: add.assoc)
qed

lemma length_admits [simp]: "length (admits n l) = n"
  by (induction n arbitrary: l) simp_all

lemma admits_numeral:
  "admits (numeral v) l = snd (fst (start l)) # admits (pred_numeral v) (snd (start l))"
  by (simp add: numeral_eq_Suc)

lemma admits_rejecting: "sint (limit l) < sint (inflight l) \<Longrightarrow> k < n \<Longrightarrow> \<not> admits n l ! k"
proof (induction n arbitrary: k)
  case 0
  then show ?case by simp
next
  case (Suc n)
  then show ?case by (cases k) (simp_all add: start_reject)
qed

lemma admits_nth:
  "limit l \<noteq> MaxInt64 \<Longrightarrow> k < n \<Longrightarrow>
   admits n l ! k \<longleftrightarrow> sint (inflight l) + int k \<le> sint (limit l)"
proof (induction n arbitrary: l k)
  case 0
  then show ?case by simp
next
  case (Suc n)
  show ?case
  proof (cases "sint (limit l) < sint (inflight l)")
    case True
    then show ?thesis using admits_rejecting [OF True Suc.prems(2)] by simp
  next
    case False
    let ?l' = "l\<lparr>inflight := inflight l + 1\<rparr>"
    have st: "start l = ((Some \<lparr>tx_inflight = inflight l + 1, tx_limit = limit l\<rparr>, True), ?l')"
      using False by (rule start_admit)
    have "sint (inflight l) < 2 ^ 63 - 1"
      using False Suc.prems(1) by (simp add: sint64_neq_Max)
    then have "inflight l \<noteq> MaxInt64" by (simp add: sint64_neq_Max)
    then have succ: "sint (inflight ?l') = sint (inflight l) + 1" by (simp add: sint64_succ)
    show ?thesis
    proof (cases k)
      case 0
      then show ?thesis using False st by simp
    next
      case (Suc j)
      then have "j < n" using Suc.prems(2) by simp
      then have "admits n ?l' ! j \<longleftrightarrow> sint (inflight ?l') + int j \<le> sint (limit ?l')"
        using Suc.IH [of ?l' j] Suc.prems(1) by simp
      then show ?thesis using st Suc succ by (simp add: algebra_simps)
    qed
  qed
qed

lemma admits_Max: "limit l = MaxInt64 \<Longrightarrow> k < n \<Longrightarrow> admits n l ! k"
proof (induction n arbitrary: l k)
  case 0
  then show ?case by simp
next
  case (Suc n)
  have nr: "\<not> sint (limit l) < sint (inflight l)"
    using sint64_range(2) [of "inflight l"] Suc.prems(1) by (simp add: sint_MaxInt64)
  show ?case
  proof (cases k)
    case 0
    then show ?thesis using start_admit [OF nr] by simp
  next
    case (Suc j)
    then show ?thesis using Suc.IH [of "snd (start l)" j] Suc.prems by simp
  qed
qed

section \<open>Admission\<close>

text \<open>
  Claim C1. \<^verbatim>\<open>start\<close> compares the in-flight count with the limit before it increments.
  When the count is above the limit it returns no ticket and the flag false, and leaves the
  limiter as it was. Otherwise it increments the count and returns the flag true with a
  ticket that carries the incremented count and the limit. The increment is Go's \<^verbatim>\<open>++\<close> on
  an \<^verbatim>\<open>int64\<close>: the integer successor unless the count is \<open>2 ^ 63 - 1\<close>.
\<close>

theorem start_contract:
  "(sint (limit l) < sint (inflight l) \<longrightarrow> start l = ((None, False), l)) \<and>
   (\<not> sint (limit l) < sint (inflight l) \<longrightarrow>
      start l = ((Some \<lparr>tx_inflight = inflight l + 1, tx_limit = limit l\<rparr>, True),
                 l\<lparr>inflight := inflight l + 1\<rparr>)) \<and>
   (\<not> sint (limit l) < sint (inflight l) \<and> inflight l \<noteq> MaxInt64 \<longrightarrow>
      sint (inflight (snd (start l))) = sint (inflight l) + 1)"
  by (simp add: start_def Let_def sint64_succ)

theorem start_contract_witness:
  "start \<lparr>backoffRatio = f64_half, inflight = 5, limit = 4\<rparr> =
     ((None, False), \<lparr>backoffRatio = f64_half, inflight = 5, limit = 4\<rparr>) \<and>
   start \<lparr>backoffRatio = f64_half, inflight = 4, limit = 4\<rparr> =
     ((Some \<lparr>tx_inflight = 5, tx_limit = 4\<rparr>, True),
      \<lparr>backoffRatio = f64_half, inflight = 5, limit = 4\<rparr>) \<and>
   sint (inflight (snd (start \<lparr>backoffRatio = f64_half, inflight = 4, limit = 4\<rparr>))) = 5"
  using start_contract [of "\<lparr>backoffRatio = f64_half, inflight = 5, limit = 4\<rparr>"]
        start_contract [of "\<lparr>backoffRatio = f64_half, inflight = 4, limit = 4\<rparr>"]
  by (simp add: MaxInt64_def)

text \<open>
  Claim C8. A rejecting call of \<^verbatim>\<open>start\<close> (in-flight count above the limit) leaves the whole
  limiter, so both counters, unchanged and returns no ticket; the in-flight count changes
  only in a call that admits; no call of \<^verbatim>\<open>start\<close> changes the limit or the ratio.
\<close>

theorem start_reject_frame:
  "(snd (fst (start l)) \<longleftrightarrow> \<not> sint (limit l) < sint (inflight l)) \<and>
   (\<not> snd (fst (start l)) \<longrightarrow> snd (start l) = l \<and> fst (fst (start l)) = None) \<and>
   (inflight (snd (start l)) \<noteq> inflight l \<longrightarrow> snd (fst (start l))) \<and>
   limit (snd (start l)) = limit l \<and> backoffRatio (snd (start l)) = backoffRatio l"
  by (simp add: start_def Let_def)

theorem start_reject_frame_witness:
  "\<not> snd (fst (start \<lparr>backoffRatio = f64_half, inflight = 5, limit = 4\<rparr>)) \<and>
   snd (start \<lparr>backoffRatio = f64_half, inflight = 5, limit = 4\<rparr>) =
     \<lparr>backoffRatio = f64_half, inflight = 5, limit = 4\<rparr> \<and>
   inflight (snd (start \<lparr>backoffRatio = f64_half, inflight = 4, limit = 4\<rparr>)) \<noteq> 4 \<and>
   snd (fst (start \<lparr>backoffRatio = f64_half, inflight = 4, limit = 4\<rparr>))"
  using start_reject_frame [of "\<lparr>backoffRatio = f64_half, inflight = 5, limit = 4\<rparr>"]
        start_reject_frame [of "\<lparr>backoffRatio = f64_half, inflight = 4, limit = 4\<rparr>"]
  by (simp add: start_def)

text \<open>
  Claim C5, amended. In a sequence of calls of \<^verbatim>\<open>start\<close> on a fresh limiter with initial
  limit \<open>c\<close>, nothing settled between them, the \<open>N\<close>th call is admitted exactly when
  \<open>N \<le> c + 1\<close> (here \<open>N = k + 1\<close>): the first \<open>c + 1\<close> calls are admitted and every later
  one is rejected, for every \<open>c\<close> but the largest \<^verbatim>\<open>int64\<close>.
\<close>

theorem admits_fresh:
  "c \<noteq> MaxInt64 \<Longrightarrow> k < n \<Longrightarrow> admits n (Limiter c r) ! k \<longleftrightarrow> int k \<le> sint c"
  using admits_nth [of "Limiter c r" k n] by (simp add: Limiter_def)

theorem admits_fresh_witness:
  "(4::int64) \<noteq> MaxInt64 \<and> admits 8 (Limiter 4 f64_half) ! 4 \<and> \<not> admits 8 (Limiter 4 f64_half) ! 5 \<and>
   admits 8 (Limiter 4 f64_half) = [True, True, True, True, True, False, False, False]"
  using admits_fresh [of 4 4 8 f64_half] admits_fresh [of 4 5 8 f64_half]
  by (simp add: MaxInt64_def Limiter_def start_def admits_numeral)

text \<open>
  The claim as stated fails at the initial limit \<open>2 ^ 63 - 1\<close>: it is at least 1, call
  number \<open>2 ^ 63 + 1\<close> is beyond \<open>c + 1\<close>, and it is admitted (no \<^verbatim>\<open>int64\<close> count is above
  that limit, so no call is ever rejected).
\<close>

theorem admits_MaxInt64_counterexample:
  "1 \<le> sint MaxInt64 \<and> sint MaxInt64 + 1 < int 9223372036854775809 \<and>
   admits 9223372036854775809 (Limiter MaxInt64 f64_half) ! 9223372036854775808"
  using admits_Max [of "Limiter MaxInt64 f64_half" 9223372036854775808 9223372036854775809]
  by (simp add: sint_MaxInt64 Limiter_def)

section \<open>Settling\<close>

lemma f64_val_half: "f64_val f64_half = 1 / 2"
  by (simp add: f64_val_def f64_half_def f64_mant_def f64_expo_def power_int_minus)

lemma f64_val_tenth: "0 < f64_val f64_tenth" "f64_val f64_tenth < 1"
  by (simp_all add: f64_val_def f64_tenth_def f64_mant_def f64_expo_def power_int_minus)

lemma f64_val_tenth_floor: "\<lfloor>f64_val f64_tenth\<rfloor> = 0"
  using f64_val_tenth by (intro floor_unique) simp_all

lemma one_times_tenth: "f64_mul (int64_to_f64 1) f64_tenth = f64_tenth"
  by (simp add: f64_eval)

lemma four_times_half: "f64_val (f64_mul (int64_to_f64 4) f64_half) = 2"
  by (simp add: f64_eval f64_val_def)

text \<open>
  The product is the rounded one: \<open>6\<close> times the \<^verbatim>\<open>float64\<close> nearest to \<open>1/3\<close> is below 2
  as a real number and exactly 2 as a \<^verbatim>\<open>float64\<close>.
\<close>

lemma six_times_third:
  "6 * f64_val f64_third < 2" "f64_val (f64_mul (int64_to_f64 6) f64_third) = 2"
  by (simp_all add: f64_eval f64_val_def power_int_minus)

text \<open>
  The \<^verbatim>\<open>float64\<close> of \<open>0.7\<close> is just below \<open>7/10\<close>; ten times it is below 7 as a real number
  and exactly 7 as a \<^verbatim>\<open>float64\<close>.
\<close>

lemma f64_val_seven_tenths: "f64_val f64_seven_tenths = 6305039478318694 / 2 ^ 53"
  by (simp add: f64_val_def f64_seven_tenths_def f64_mant_def f64_expo_def power_int_minus)

lemma f64_seven_tenths_nearest: "f64_nearest_even f64_seven_tenths (7 / 10)"
proof -
  have fin: "f64_is_finite f64_seven_tenths" by (simp add: f64_is_finite_def f64_seven_tenths_def)
  have sg: "\<not> f64_sign f64_seven_tenths" by (simp add: f64_seven_tenths_def)
  have mant: "f64_mant f64_seven_tenths = 6305039478318694"
    and expo: "f64_expo f64_seven_tenths = - 53"
    by (simp_all add: f64_seven_tenths_def f64_mant_def f64_expo_def)
  have "f64_nearest_even f64_seven_tenths ((if f64_sign f64_seven_tenths then - 1 else 1) * (7 / 10))"
  proof (rule f64_nearest_even_grid [where L = 6305039478318694 and M = 6305039478318694 and q = "- 53"])
    show "f64_is_finite f64_seven_tenths" by (rule fin)
    show "real (f64_mant f64_seven_tenths) * 2 powi f64_expo f64_seven_tenths
            = real 6305039478318694 * 2 powi (- 53)" by (simp add: mant expo)
  qed (simp_all add: mant power_int_minus)
  then show ?thesis using sg by simp
qed

lemma ten_times_seven_tenths:
  "\<lfloor>10 * f64_val f64_seven_tenths\<rfloor> = 6"
  "f64_mul (int64_to_f64 10) f64_seven_tenths = F64 False 1025 0xC000000000000"
  "f64_val (F64 False 1025 0xC000000000000) = 7"
proof -
  show "\<lfloor>10 * f64_val f64_seven_tenths\<rfloor> = 6"
    unfolding f64_val_seven_tenths by (intro floor_unique) simp_all
  show "f64_mul (int64_to_f64 10) f64_seven_tenths = F64 False 1025 0xC000000000000"
    by (simp add: f64_eval f64_seven_tenths_def)
  show "f64_val (F64 False 1025 0xC000000000000) = 7"
    by (simp add: f64_val_def f64_mant_def f64_expo_def)
qed

text \<open>
  Claim C2, amended. When the error is one of the three overload codes: if the limit is not
  below the one recorded in the ticket, the new limit is \<open>max 1 \<lfloor>p\<rfloor>\<close> where \<open>p\<close> is the
  \<^verbatim>\<open>float64\<close> product \<^verbatim>\<open>float64(limit) * backoffRatio\<close> (for every \<^verbatim>\<open>int64\<close> limit, every
  finite ratio strictly between 0 and 1, and every platform), and nothing else changes.
  Here \<^verbatim>\<open>float64(limit)\<close> is the float nearest to the limit, and \<open>p\<close> is the float nearest to
  the exact product of \<^verbatim>\<open>float64(limit)\<close> and the ratio, ties to even in both; \<open>p\<close> is finite.
  For a limit below \<open>2 ^ 53\<close> the new limit is therefore \<open>max 1 \<lfloor>limit * backoffRatio\<rfloor>\<close> of
  the exact product, or one more than that. If the limit is below the ticket's, the limiter
  is unchanged. With limit 1 and the ratio \<open>0.1\<close> the floor of the product is 0 and the new
  limit is 1.
\<close>

theorem finish_overload_decrease:
  "overload err \<Longrightarrow>
   (f64_is_finite (backoffRatio l) \<and> 0 < f64_val (backoffRatio l) \<and> f64_val (backoffRatio l) < 1 \<and>
    sint (tx_limit t) \<le> sint (limit l) \<longrightarrow>
      f64_nearest_even (int64_to_f64 (limit l)) (real_of_int (sint (limit l))) \<and>
      f64_nearest_even (f64_mul (int64_to_f64 (limit l)) (backoffRatio l))
        (f64_val (int64_to_f64 (limit l)) * f64_val (backoffRatio l)) \<and>
      f64_is_finite (f64_mul (int64_to_f64 (limit l)) (backoffRatio l)) \<and>
      (\<exists>l'. finish indef l (Some t) err = Inr l' \<and>
         sint (limit l') = max 1 \<lfloor>f64_val (f64_mul (int64_to_f64 (limit l)) (backoffRatio l))\<rfloor> \<and>
         inflight l' = inflight l \<and> backoffRatio l' = backoffRatio l \<and>
         (sint (limit l) < 2 ^ 53 \<longrightarrow>
            max 1 \<lfloor>real_of_int (sint (limit l)) * f64_val (backoffRatio l)\<rfloor> \<le> sint (limit l') \<and>
            sint (limit l') \<le> max 1 \<lfloor>real_of_int (sint (limit l)) * f64_val (backoffRatio l)\<rfloor> + 1))) \<and>
   (sint (limit l) < sint (tx_limit t) \<longrightarrow> finish indef l (Some t) err = Inr l) \<and>
   (limit l = 1 \<and> backoffRatio l = f64_tenth \<and> sint (tx_limit t) \<le> 1 \<longrightarrow>
      (\<exists>l'. finish indef l (Some t) err = Inr l' \<and> limit l' = 1 \<and>
         \<lfloor>f64_val (f64_mul (int64_to_f64 (limit l)) (backoffRatio l))\<rfloor> = 0))"
proof -
  assume ov: "overload err"
  let ?r = "backoffRatio l"
  let ?p = "f64_mul (int64_to_f64 (limit l)) ?r"
  have fin: "finish indef l (Some t) err = Inr (multiplicative_decrease indef l t)"
    using ov by (rule finish_overload)
  have 1: "f64_nearest_even (int64_to_f64 (limit l)) (real_of_int (sint (limit l))) \<and>
      f64_nearest_even ?p (f64_val (int64_to_f64 (limit l)) * f64_val ?r) \<and>
      f64_is_finite ?p \<and>
      (\<exists>l'. finish indef l (Some t) err = Inr l' \<and>
         sint (limit l') = max 1 \<lfloor>f64_val ?p\<rfloor> \<and>
         inflight l' = inflight l \<and> backoffRatio l' = backoffRatio l \<and>
         (sint (limit l) < 2 ^ 53 \<longrightarrow>
            max 1 \<lfloor>real_of_int (sint (limit l)) * f64_val ?r\<rfloor> \<le> sint (limit l') \<and>
            sint (limit l') \<le> max 1 \<lfloor>real_of_int (sint (limit l)) * f64_val ?r\<rfloor> + 1))"
    if r: "f64_is_finite ?r" "0 < f64_val ?r" "f64_val ?r < 1"
      and g: "sint (tx_limit t) \<le> sint (limit l)"
  proof -
    define l' where "l' = multiplicative_decrease indef l t"
    have new: "sint (limit l') = max 1 \<lfloor>f64_val ?p\<rfloor>"
      unfolding l'_def using multiplicative_decrease_floor [OF r, of t indef] g by simp
    have frame: "inflight l' = inflight l" "backoffRatio l' = backoffRatio l"
      by (simp_all add: l'_def multiplicative_decrease_def Let_def)
    have a: "f64_nearest_even (int64_to_f64 (limit l)) (real_of_int (sint (limit l)))"
      by (rule int64_to_f64_nearest_even)
    have b: "f64_nearest_even ?p (f64_val (int64_to_f64 (limit l)) * f64_val ?r)"
      using r by (rule f64_scale_nearest_even)
    have c: "f64_is_finite ?p" using f64_scale_bounded [OF r, of "limit l"] by blast
    have d: "max 1 \<lfloor>real_of_int (sint (limit l)) * f64_val ?r\<rfloor> \<le> sint (limit l') \<and>
             sint (limit l') \<le> max 1 \<lfloor>real_of_int (sint (limit l)) * f64_val ?r\<rfloor> + 1"
      if "sint (limit l) < 2 ^ 53"
      unfolding new using f64_scale_floor_bounds [OF r that] by blast
    show ?thesis using a b c new frame d fin unfolding l'_def [symmetric] by blast
  qed
  have 2: "sint (limit l) < sint (tx_limit t) \<longrightarrow> finish indef l (Some t) err = Inr l"
    by (simp add: fin multiplicative_decrease_def)
  have 3: "limit l = 1 \<and> backoffRatio l = f64_tenth \<and> sint (tx_limit t) \<le> 1 \<longrightarrow>
      (\<exists>l'. finish indef l (Some t) err = Inr l' \<and> limit l' = 1 \<and>
         \<lfloor>f64_val (f64_mul (int64_to_f64 (limit l)) (backoffRatio l))\<rfloor> = 0)"
    by (simp add: fin one_times_tenth f64_val_tenth_floor)
       (simp add: multiplicative_decrease_def f64_eval)
  show ?thesis using 1 2 3 by blast
qed

theorem finish_overload_decrease_witness:
  "overload (GRPCStatus Unavailable) \<and> f64_is_finite f64_half \<and> 0 < f64_val f64_half \<and> f64_val f64_half < 1 \<and>
   f64_nearest_even (f64_mul (int64_to_f64 4) f64_half) (f64_val (int64_to_f64 4) * f64_val f64_half) \<and>
   (\<exists>l'. finish amd64_indef \<lparr>backoffRatio = f64_half, inflight = 3, limit = 4\<rparr>
            (Some \<lparr>tx_inflight = 1, tx_limit = 4\<rparr>) (GRPCStatus Unavailable) = Inr l' \<and>
         sint (limit l') = 2) \<and>
   finish amd64_indef \<lparr>backoffRatio = f64_half, inflight = 3, limit = 2\<rparr>
      (Some \<lparr>tx_inflight = 1, tx_limit = 4\<rparr>) (GRPCStatus Unavailable)
     = Inr \<lparr>backoffRatio = f64_half, inflight = 3, limit = 2\<rparr> \<and>
   (\<exists>l'. finish amd64_indef \<lparr>backoffRatio = f64_tenth, inflight = 1, limit = 1\<rparr>
            (Some \<lparr>tx_inflight = 1, tx_limit = 1\<rparr>) (GRPCStatus Unavailable) = Inr l' \<and> limit l' = 1)"
proof -
  have ov: "overload (GRPCStatus Unavailable)" by (simp add: overload_def)
  have h: "f64_is_finite f64_half" "0 < f64_val f64_half" "f64_val f64_half < 1"
    by (simp_all add: f64_val_half) (simp add: f64_is_finite_def f64_half_def)
  show ?thesis
    using finish_overload_decrease [OF ov, where indef = amd64_indef
            and l = "\<lparr>backoffRatio = f64_half, inflight = 3, limit = 4\<rparr>"
            and t = "\<lparr>tx_inflight = 1, tx_limit = 4\<rparr>"]
          finish_overload_decrease [OF ov, where indef = amd64_indef
            and l = "\<lparr>backoffRatio = f64_half, inflight = 3, limit = 2\<rparr>"
            and t = "\<lparr>tx_inflight = 1, tx_limit = 4\<rparr>"]
          finish_overload_decrease [OF ov, where indef = amd64_indef
            and l = "\<lparr>backoffRatio = f64_tenth, inflight = 1, limit = 1\<rparr>"
            and t = "\<lparr>tx_inflight = 1, tx_limit = 1\<rparr>"]
          ov h four_times_half
    by auto
qed

text \<open>
  The claim as stated fails at limit 10 with the ratio \<open>0.7\<close>: the ratio is the float nearest
  to \<open>7/10\<close>, which is below it, so the floor of the exact product of the limit and the ratio
  is 6; the \<^verbatim>\<open>float64\<close> product rounds to 7, and the new limit is 7.
\<close>

theorem finish_overload_floor_counterexample:
  "overload (GRPCStatus Unavailable) \<and>
   f64_nearest_even f64_seven_tenths (7 / 10) \<and>
   0 < f64_val f64_seven_tenths \<and> f64_val f64_seven_tenths < 1 \<and>
   finish amd64_indef \<lparr>backoffRatio = f64_seven_tenths, inflight = 1, limit = 10\<rparr>
      (Some \<lparr>tx_inflight = 1, tx_limit = 10\<rparr>) (GRPCStatus Unavailable)
     = Inr \<lparr>backoffRatio = f64_seven_tenths, inflight = 1, limit = 7\<rparr> \<and>
   max 1 \<lfloor>real_of_int (sint (10 :: int64)) * f64_val f64_seven_tenths\<rfloor> = 6"
proof -
  have ov: "overload (GRPCStatus Unavailable)" by (simp add: overload_def)
  have v: "0 < f64_val f64_seven_tenths" "f64_val f64_seven_tenths < 1"
    by (simp_all add: f64_val_seven_tenths)
  have f: "finish amd64_indef \<lparr>backoffRatio = f64_seven_tenths, inflight = 1, limit = 10\<rparr>
      (Some \<lparr>tx_inflight = 1, tx_limit = 10\<rparr>) (GRPCStatus Unavailable)
     = Inr \<lparr>backoffRatio = f64_seven_tenths, inflight = 1, limit = 7\<rparr>"
    unfolding finish_overload [OF ov]
    by (simp add: multiplicative_decrease_def ten_times_seven_tenths(2)) (simp add: f64_eval)
  have "sint (10 :: int64) = 10" by simp
  then have m: "max 1 \<lfloor>real_of_int (sint (10 :: int64)) * f64_val f64_seven_tenths\<rfloor> = 6"
    using ten_times_seven_tenths(1) by simp
  show ?thesis using ov f64_seven_tenths_nearest v f m by blast
qed

text \<open>
  Claim C3. When the error is not one of the three overload codes, \<^verbatim>\<open>finish\<close> returns
  normally (whatever the ticket), and the limit becomes \<open>limit + 1\<close> exactly when the
  in-flight count is above \<open>limit / 2\<close> in Go's integer division; otherwise the limit is
  unchanged. At limit 5 the increase happens exactly from an in-flight count of 3. The
  increment is Go's \<^verbatim>\<open>++\<close>: the integer successor unless the limit is \<open>2 ^ 63 - 1\<close>. The
  in-flight count and the ratio are not written.
\<close>

theorem finish_other_increase:
  "\<not> overload err \<Longrightarrow>
   \<exists>l'. finish indef l tx err = Inr l' \<and>
     (limit l' = limit l + 1 \<longleftrightarrow> sint (limit l) sdiv 2 < sint (inflight l)) \<and>
     (limit l' = limit l \<longleftrightarrow> \<not> sint (limit l) sdiv 2 < sint (inflight l)) \<and>
     (sint (limit l) sdiv 2 < sint (inflight l) \<and> limit l \<noteq> MaxInt64 \<longrightarrow>
        sint (limit l') = sint (limit l) + 1) \<and>
     (limit l = 5 \<longrightarrow> (limit l' = 6 \<longleftrightarrow> 3 \<le> sint (inflight l))) \<and>
     inflight l' = inflight l \<and> backoffRatio l' = backoffRatio l"
  by (auto simp: finish_other additive_increase_def sint64_succ signed_divide_int_def)

theorem finish_other_increase_witness:
  "\<not> overload nil \<and>
   (\<exists>l'. finish amd64_indef \<lparr>backoffRatio = f64_half, inflight = 3, limit = 5\<rparr>
            (Some \<lparr>tx_inflight = 3, tx_limit = 5\<rparr>) nil = Inr l' \<and>
      limit l' = 6 \<and> sint (limit l') = 6 \<and> inflight l' = 3) \<and>
   (\<exists>l'. finish amd64_indef \<lparr>backoffRatio = f64_half, inflight = 2, limit = 5\<rparr>
            (Some \<lparr>tx_inflight = 2, tx_limit = 5\<rparr>) nil = Inr l' \<and>
      limit l' = 5 \<and> inflight l' = 2)"
  using finish_other_increase [where err = nil and indef = amd64_indef
          and tx = "Some \<lparr>tx_inflight = 3, tx_limit = 5\<rparr>"
          and l = "\<lparr>backoffRatio = f64_half, inflight = 3, limit = 5\<rparr>"]
        finish_other_increase [where err = nil and indef = amd64_indef
          and tx = "Some \<lparr>tx_inflight = 2, tx_limit = 5\<rparr>"
          and l = "\<lparr>backoffRatio = f64_half, inflight = 2, limit = 5\<rparr>"]
  by (auto simp: not_overload_nil MaxInt64_def signed_divide_int_def)

text \<open>
  Claim C6. \<^verbatim>\<open>finish\<close> returns normally for every ticket and every error. It takes the
  overload branch exactly when the error carries a gRPC status whose code is
  \<^verbatim>\<open>Canceled\<close>, \<^verbatim>\<open>DeadlineExceeded\<close> or \<^verbatim>\<open>Unavailable\<close>; a nil error (success), an error
  without a gRPC status and a status with any other code take the default branch.
\<close>

theorem finish_classifies:
  "finish indef l (Some t) err =
     Inr (if overload err then multiplicative_decrease indef l t else additive_increase l) \<and>
   (overload err \<longleftrightarrow>
      err = GRPCStatus Canceled \<or> err = GRPCStatus DeadlineExceeded \<or> err = GRPCStatus Unavailable) \<and>
   \<not> overload nil \<and> \<not> overload OtherError \<and>
   (\<forall>c. c \<noteq> Canceled \<and> c \<noteq> DeadlineExceeded \<and> c \<noteq> Unavailable \<longrightarrow> \<not> overload (GRPCStatus c))"
  using overload_iff [of err]
  by (auto simp: finish_overload finish_other overload_def Unknown_def OK_def Canceled_def DeadlineExceeded_def Unavailable_def)

theorem finish_classifies_witness:
  "finish amd64_indef \<lparr>backoffRatio = f64_half, inflight = 3, limit = 4\<rparr>
     (Some \<lparr>tx_inflight = 1, tx_limit = 4\<rparr>) (GRPCStatus DeadlineExceeded)
     = Inr \<lparr>backoffRatio = f64_half, inflight = 3, limit = 2\<rparr> \<and>
   finish amd64_indef \<lparr>backoffRatio = f64_half, inflight = 3, limit = 4\<rparr>
     (Some \<lparr>tx_inflight = 1, tx_limit = 4\<rparr>) OtherError
     = Inr \<lparr>backoffRatio = f64_half, inflight = 3, limit = 5\<rparr> \<and>
   finish amd64_indef \<lparr>backoffRatio = f64_half, inflight = 3, limit = 4\<rparr>
     (Some \<lparr>tx_inflight = 1, tx_limit = 4\<rparr>) (GRPCStatus 13)
     = Inr \<lparr>backoffRatio = f64_half, inflight = 3, limit = 5\<rparr> \<and>
   \<not> overload (GRPCStatus 13)"
  using finish_classifies [where indef = amd64_indef and l = "\<lparr>backoffRatio = f64_half, inflight = 3, limit = 4\<rparr>"
          and t = "\<lparr>tx_inflight = 1, tx_limit = 4\<rparr>" and err = "GRPCStatus DeadlineExceeded"]
        finish_classifies [where indef = amd64_indef and l = "\<lparr>backoffRatio = f64_half, inflight = 3, limit = 4\<rparr>"
          and t = "\<lparr>tx_inflight = 1, tx_limit = 4\<rparr>" and err = OtherError]
        finish_classifies [where indef = amd64_indef and l = "\<lparr>backoffRatio = f64_half, inflight = 3, limit = 4\<rparr>"
          and t = "\<lparr>tx_inflight = 1, tx_limit = 4\<rparr>" and err = "GRPCStatus 13"]
  by (simp add: multiplicative_decrease_def additive_increase_def f64_eval signed_divide_int_def
        Canceled_def DeadlineExceeded_def Unavailable_def)

text \<open>
  Claim C10. In the default branch the ticket is not read: any two tickets (a nil pointer
  too) give the same result, which depends on the limiter's own counters only; so the limit
  is raised whenever the in-flight count is above half of it, also when the limit is below
  the one recorded in the ticket. In the witness the limit fell from 4 to 2 after the
  second ticket was issued, and that ticket's settling raises it to 3.
\<close>

theorem finish_other_ignores_ticket:
  "\<not> overload err \<Longrightarrow>
   finish indef l tx err = finish indef l tx' err \<and>
   finish indef l tx err = Inr (additive_increase l) \<and>
   (sint (limit l) sdiv 2 < sint (inflight l) \<longrightarrow> limit (additive_increase l) = limit l + 1)"
  by (simp add: finish_other additive_increase_def)

theorem finish_other_ignores_ticket_witness:
  "\<not> overload nil \<and>
   run amd64_indef (Limiter 4 f64_half)
     [Admit, Admit, Settle \<lparr>tx_inflight = 1, tx_limit = 4\<rparr> (GRPCStatus Unavailable)]
     = \<lparr>backoffRatio = f64_half, inflight = 2, limit = 2\<rparr> \<and>
   finish amd64_indef \<lparr>backoffRatio = f64_half, inflight = 2, limit = 2\<rparr>
     (Some \<lparr>tx_inflight = 2, tx_limit = 4\<rparr>) nil
     = finish amd64_indef \<lparr>backoffRatio = f64_half, inflight = 2, limit = 2\<rparr> None nil \<and>
   finish amd64_indef \<lparr>backoffRatio = f64_half, inflight = 2, limit = 2\<rparr>
     (Some \<lparr>tx_inflight = 2, tx_limit = 4\<rparr>) nil
     = Inr \<lparr>backoffRatio = f64_half, inflight = 2, limit = 3\<rparr>"
  using finish_other_ignores_ticket [where err = nil and indef = amd64_indef
          and l = "\<lparr>backoffRatio = f64_half, inflight = 2, limit = 2\<rparr>"
          and tx = "Some \<lparr>tx_inflight = 2, tx_limit = 4\<rparr>" and tx' = None]
  by (simp add: not_overload_nil finish_other additive_increase_def signed_divide_int_def
        Limiter_def start_def step_Settle overload_iff multiplicative_decrease_def f64_eval)

section \<open>Invariants along a sequence of calls\<close>

lemma step_inflight_mono:
  "inflight l \<noteq> MaxInt64 \<Longrightarrow> sint (inflight l) \<le> sint (inflight (step indef l c))"
proof (cases c)
  case Admit
  assume "inflight l \<noteq> MaxInt64"
  then show ?thesis using Admit inflight_start_cases [of l] by (auto simp: sint64_succ)
next
  case (Settle t err)
  then show ?thesis by simp
qed

lemma run_inflight_mono:
  assumes "\<forall>k<length cs. inflight (run indef l (take k cs)) \<noteq> MaxInt64"
  shows "i \<le> j \<Longrightarrow> j \<le> length cs \<Longrightarrow>
         sint (inflight (run indef l (take i cs))) \<le> sint (inflight (run indef l (take j cs)))"
proof (induction j)
  case 0
  then show ?case by simp
next
  case (Suc j)
  show ?case
  proof (cases "i = Suc j")
    case True
    then show ?thesis by simp
  next
    case False
    then have ij: "i \<le> j" using Suc.prems by simp
    have j: "j < length cs" using Suc.prems by simp
    have "sint (inflight (run indef l (take j cs))) \<le> sint (inflight (run indef l (take (Suc j) cs)))"
      using assms j by (simp add: run_take_Suc step_inflight_mono)
    then show ?thesis using Suc.IH [OF ij] j by simp
  qed
qed

lemma limit_multiplicative_decrease_ge1:
  "1 \<le> sint (limit l) \<Longrightarrow> 1 \<le> sint (limit (multiplicative_decrease indef l t))"
  by (simp add: multiplicative_decrease_def Let_def)

lemma limit_additive_increase_ge1:
  "1 \<le> sint (limit l) \<Longrightarrow> limit l \<noteq> MaxInt64 \<Longrightarrow> 1 \<le> sint (limit (additive_increase l))"
  by (simp add: additive_increase_def sint64_succ)

lemma step_limit_ge1:
  "1 \<le> sint (limit l) \<Longrightarrow> limit l \<noteq> MaxInt64 \<Longrightarrow> 1 \<le> sint (limit (step indef l c))"
proof (cases c)
  case Admit
  assume "1 \<le> sint (limit l)"
  then show ?thesis using Admit by simp
next
  case (Settle t err)
  assume "1 \<le> sint (limit l)" "limit l \<noteq> MaxInt64"
  then show ?thesis using Settle
    by (simp add: step_Settle limit_multiplicative_decrease_ge1 limit_additive_increase_ge1)
qed

lemma run_limit_ge1:
  assumes "1 \<le> sint (limit l)" "\<forall>k<length cs. limit (run indef l (take k cs)) \<noteq> MaxInt64"
  shows "j \<le> length cs \<Longrightarrow> 1 \<le> sint (limit (run indef l (take j cs)))"
proof (induction j)
  case 0
  then show ?case using assms(1) by simp
next
  case (Suc j)
  then have j: "j < length cs" by simp
  then show ?case using Suc.IH assms(2) by (simp add: run_take_Suc step_limit_ge1)
qed

text \<open>
  Claim C4, amended. From a limiter constructed with an initial limit of at least 1 (and
  any ratio), along every sequence of calls of \<^verbatim>\<open>start\<close> and \<^verbatim>\<open>finish\<close> with any tickets
  and errors, the limit is at least 1 in every state up to and including the first state in
  which it is \<open>2 ^ 63 - 1\<close>.
\<close>

theorem ceiling_ge_1:
  "1 \<le> sint c \<Longrightarrow> \<forall>k<length cs. limit (run indef (Limiter c r) (take k cs)) \<noteq> MaxInt64 \<Longrightarrow>
   j \<le> length cs \<Longrightarrow> 1 \<le> sint (limit (run indef (Limiter c r) (take j cs)))"
  using run_limit_ge1 [of "Limiter c r" cs indef j] by (simp add: Limiter_def)

theorem ceiling_ge_1_witness:
  "1 \<le> sint (4 :: int64) \<and>
   limit (run amd64_indef (Limiter 4 f64_half)
     [Admit, Settle \<lparr>tx_inflight = 1, tx_limit = 4\<rparr> (GRPCStatus Unavailable), Settle \<lparr>tx_inflight = 1, tx_limit = 2\<rparr> (GRPCStatus Unavailable)]) = 1 \<and>
   1 \<le> sint (limit (run amd64_indef (Limiter 4 f64_half)
     [Admit, Settle \<lparr>tx_inflight = 1, tx_limit = 4\<rparr> (GRPCStatus Unavailable), Settle \<lparr>tx_inflight = 1, tx_limit = 2\<rparr> (GRPCStatus Unavailable)]))"
proof -
  let ?cs = "[Admit, Settle \<lparr>tx_inflight = 1, tx_limit = 4\<rparr> (GRPCStatus Unavailable), Settle \<lparr>tx_inflight = 1, tx_limit = 2\<rparr> (GRPCStatus Unavailable)]"
  have ev: "run amd64_indef (Limiter 4 f64_half) [] = \<lparr>backoffRatio = f64_half, inflight = 0, limit = 4\<rparr>"
    "run amd64_indef (Limiter 4 f64_half) [Admit] = \<lparr>backoffRatio = f64_half, inflight = 1, limit = 4\<rparr>"
    "run amd64_indef (Limiter 4 f64_half) [Admit, Settle \<lparr>tx_inflight = 1, tx_limit = 4\<rparr> (GRPCStatus Unavailable)]
       = \<lparr>backoffRatio = f64_half, inflight = 1, limit = 2\<rparr>"
    "run amd64_indef (Limiter 4 f64_half) ?cs = \<lparr>backoffRatio = f64_half, inflight = 1, limit = 1\<rparr>"
    by (simp_all add: Limiter_def start_def step_Settle overload_iff multiplicative_decrease_def f64_eval)
  have h1: "1 \<le> sint (4 :: int64)" by simp
  have h2: "\<forall>k<length ?cs. limit (run amd64_indef (Limiter 4 f64_half) (take k ?cs)) \<noteq> MaxInt64"
  proof (intro allI impI)
    fix k assume "k < length ?cs"
    then consider "k = 0" | "k = 1" | "k = 2" by (auto simp: less_Suc_eq numeral_2_eq_2)
    then show "limit (run amd64_indef (Limiter 4 f64_half) (take k ?cs)) \<noteq> MaxInt64"
      using ev by cases (simp_all add: MaxInt64_def)
  qed
  have "1 \<le> sint (limit (run amd64_indef (Limiter 4 f64_half) (take 3 ?cs)))"
    using ceiling_ge_1 [OF h1 h2, of 3] by simp
  then show ?thesis using ev by simp
qed

text \<open>
  The claim as stated fails at the initial limit \<open>2 ^ 63 - 1\<close> with the ratio \<open>0.5\<close>:
  after \<open>2 ^ 62\<close> admissions the in-flight count is above half the limit, and settling
  the first ticket without error increments the limit to \<open>- 2 ^ 63\<close>.
\<close>

theorem ceiling_wraps_counterexample:
  "1 \<le> sint MaxInt64 \<and> 0 < f64_val f64_half \<and> f64_val f64_half < 1 \<and>
   sint (limit (run amd64_indef (Limiter MaxInt64 f64_half)
     (replicate 4611686018427387904 Admit @ [Settle \<lparr>tx_inflight = 1, tx_limit = MaxInt64\<rparr> nil]))) = - (2 ^ 63)"
proof -
  have "run amd64_indef (Limiter MaxInt64 f64_half) (replicate 4611686018427387904 Admit)
        = \<lparr>backoffRatio = f64_half, inflight = 4611686018427387904, limit = MaxInt64\<rparr>"
    using run_admits_Max [of "Limiter MaxInt64 f64_half" amd64_indef 4611686018427387904]
    by (simp add: Limiter_def)
  then have "limit (run amd64_indef (Limiter MaxInt64 f64_half)
     (replicate 4611686018427387904 Admit @ [Settle \<lparr>tx_inflight = 1, tx_limit = MaxInt64\<rparr> nil])) = MaxInt64 + 1"
    by (simp add: run_snoc step_Settle not_overload_nil additive_increase_def MaxInt64_def signed_divide_int_def)
  moreover have "0 < f64_val f64_half \<and> f64_val f64_half < 1"
    by (simp add: f64_val_def f64_eval power_int_minus)
  ultimately show ?thesis by (simp add: sint_MaxInt64 sint64_succ_Max)
qed

text \<open>
  Claim C7, amended. \<^verbatim>\<open>finish\<close> never writes the in-flight count, whatever the ticket and
  the error; \<^verbatim>\<open>start\<close> leaves it or, when it admits, increments it; so along every sequence
  of calls the count does not decrease up to the first state in which it is \<open>2 ^ 63 - 1\<close>.
\<close>

theorem inflight_never_decreases:
  "(finish indef l tx err = Inr l' \<longrightarrow> inflight l' = inflight l) \<and>
   inflight (step indef l (Settle t err)) = inflight l \<and>
   (inflight (snd (start l)) = inflight l \<or>
    inflight (snd (start l)) = inflight l + 1 \<and> snd (fst (start l))) \<and>
   ((\<forall>k<length cs. inflight (run indef l (take k cs)) \<noteq> MaxInt64) \<and> i \<le> j \<and> j \<le> length cs \<longrightarrow>
      sint (inflight (run indef l (take i cs))) \<le> sint (inflight (run indef l (take j cs))))"
  using inflight_finish [of indef l tx err l'] inflight_start_cases [of l]
        run_inflight_mono [of cs indef l i j]
  by simp

theorem inflight_never_decreases_witness:
  "finish amd64_indef \<lparr>backoffRatio = f64_half, inflight = 1, limit = 4\<rparr>
     (Some \<lparr>tx_inflight = 1, tx_limit = 4\<rparr>) (GRPCStatus Unavailable)
     = Inr \<lparr>backoffRatio = f64_half, inflight = 1, limit = 2\<rparr> \<and>
   inflight (run amd64_indef (Limiter 4 f64_half) (take 1 [Admit, Settle \<lparr>tx_inflight = 1, tx_limit = 4\<rparr> nil, Admit])) = 1 \<and>
   inflight (run amd64_indef (Limiter 4 f64_half) (take 3 [Admit, Settle \<lparr>tx_inflight = 1, tx_limit = 4\<rparr> nil, Admit])) = 2 \<and>
   sint (inflight (run amd64_indef (Limiter 4 f64_half) (take 1 [Admit, Settle \<lparr>tx_inflight = 1, tx_limit = 4\<rparr> nil, Admit])))
     \<le> sint (inflight (run amd64_indef (Limiter 4 f64_half) (take 3 [Admit, Settle \<lparr>tx_inflight = 1, tx_limit = 4\<rparr> nil, Admit])))"
proof -
  let ?cs = "[Admit, Settle \<lparr>tx_inflight = 1, tx_limit = 4\<rparr> nil, Admit]"
  let ?l = "Limiter 4 f64_half"
  have ev: "run amd64_indef ?l [] = \<lparr>backoffRatio = f64_half, inflight = 0, limit = 4\<rparr>"
    "run amd64_indef ?l [Admit] = \<lparr>backoffRatio = f64_half, inflight = 1, limit = 4\<rparr>"
    "run amd64_indef ?l [Admit, Settle \<lparr>tx_inflight = 1, tx_limit = 4\<rparr> nil]
       = \<lparr>backoffRatio = f64_half, inflight = 1, limit = 4\<rparr>"
    "run amd64_indef ?l ?cs = \<lparr>backoffRatio = f64_half, inflight = 2, limit = 4\<rparr>"
    by (simp_all add: Limiter_def start_def step_Settle not_overload_nil additive_increase_def signed_divide_int_def)
  have fin: "finish amd64_indef \<lparr>backoffRatio = f64_half, inflight = 1, limit = 4\<rparr>
     (Some \<lparr>tx_inflight = 1, tx_limit = 4\<rparr>) (GRPCStatus Unavailable)
     = Inr \<lparr>backoffRatio = f64_half, inflight = 1, limit = 2\<rparr>"
    by (simp add: finish_overload overload_iff multiplicative_decrease_def f64_eval)
  have h: "\<forall>k<length ?cs. inflight (run amd64_indef ?l (take k ?cs)) \<noteq> MaxInt64"
  proof (intro allI impI)
    fix k assume "k < length ?cs"
    then consider "k = 0" | "k = 1" | "k = 2" by (auto simp: less_Suc_eq numeral_2_eq_2)
    then show "inflight (run amd64_indef ?l (take k ?cs)) \<noteq> MaxInt64"
      using ev by cases (simp_all add: MaxInt64_def)
  qed
  have "sint (inflight (run amd64_indef ?l (take 1 ?cs))) \<le> sint (inflight (run amd64_indef ?l (take 3 ?cs)))"
    using inflight_never_decreases [where indef = amd64_indef and l = ?l and cs = ?cs and i = 1 and j = 3] h
    by simp
  then show ?thesis using ev fin by simp
qed

text \<open>
  The claim as stated fails at the limit \<open>2 ^ 63 - 1\<close>: the admission number \<open>2 ^ 63\<close>
  increments the count \<open>2 ^ 63 - 1\<close> to \<open>- 2 ^ 63\<close>.
\<close>

theorem inflight_wraps_counterexample:
  "sint (inflight (run amd64_indef (Limiter MaxInt64 f64_half) (replicate 9223372036854775808 Admit)))
     < sint (inflight (run amd64_indef (Limiter MaxInt64 f64_half) (replicate 9223372036854775807 Admit)))"
  using run_admits_Max [of "Limiter MaxInt64 f64_half" amd64_indef 9223372036854775808]
        run_admits_Max [of "Limiter MaxInt64 f64_half" amd64_indef 9223372036854775807]
  by (simp add: Limiter_def)

section \<open>An initial limit of 0\<close>

lemma int64_to_f64_0: "int64_to_f64 0 = F64 False 0 0"
  by (simp add: int64_to_f64_def f64_round_def)

lemma f64_mul_zero:
  "f64_is_finite r \<Longrightarrow> f64_mul (F64 False 0 0) r = F64 (f64_sign r) 0 0"
  by (auto simp: f64_mul_def f64_is_finite_def f64_is_nan_def f64_is_inf_def f64_mant_def f64_round_def)

lemma f64_to_int64_zero: "f64_to_int64 indef (F64 s 0 0) = 0"
  by (simp add: f64_to_int64_def f64_is_finite_def f64_trunc_def f64_mant_def f64_expo_def)

lemma multiplicative_decrease_zero:
  "limit l = 0 \<Longrightarrow> f64_is_finite (backoffRatio l) \<Longrightarrow> sint (tx_limit t) \<le> 0 \<Longrightarrow>
   multiplicative_decrease indef l t = l\<lparr>limit := 1\<rparr>"
  by (simp add: multiplicative_decrease_def int64_to_f64_0 f64_mul_zero f64_to_int64_zero)

lemma additive_increase_zero:
  "limit l = 0 \<Longrightarrow> 0 < sint (inflight l) \<Longrightarrow> additive_increase l = l\<lparr>limit := 1\<rparr>"
  by (simp add: additive_increase_def)

text \<open>
  Claim C9, amended. \<^verbatim>\<open>Limiter\<close> stores its parameters as they are. With the initial limit
  0 the first call of \<^verbatim>\<open>start\<close> admits (0 is not above 0), and calls of \<^verbatim>\<open>start\<close> leave the
  limit at 0. The first settling after an admission raises it to 1: an overload error
  through the clamp (for a finite ratio and a ticket issued at limit 0), any other error
  through the additive increase (the in-flight count is above 0).
\<close>

theorem zero_ceiling:
  "start (Limiter 0 r) = ((Some \<lparr>tx_inflight = 1, tx_limit = 0\<rparr>, True),
                          \<lparr>backoffRatio = r, inflight = 1, limit = 0\<rparr>) \<and>
   limit (run indef (Limiter 0 r) (replicate n Admit)) = 0 \<and>
   (limit l = 0 \<and> f64_is_finite (backoffRatio l) \<and> overload err \<and> sint (tx_limit t) \<le> 0 \<longrightarrow>
      finish indef l (Some t) err = Inr (l\<lparr>limit := 1\<rparr>)) \<and>
   (limit l = 0 \<and> 0 < sint (inflight l) \<and> \<not> overload err \<longrightarrow>
      finish indef l tx err = Inr (l\<lparr>limit := 1\<rparr>))"
  by (simp add: finish_overload finish_other multiplicative_decrease_zero additive_increase_zero)
     (simp add: Limiter_def start_def)

theorem zero_ceiling_witness:
  "start (Limiter 0 f64_half) = ((Some \<lparr>tx_inflight = 1, tx_limit = 0\<rparr>, True),
                          \<lparr>backoffRatio = f64_half, inflight = 1, limit = 0\<rparr>) \<and>
   limit (run amd64_indef (Limiter 0 f64_half) (replicate 3 Admit)) = 0 \<and>
   finish amd64_indef \<lparr>backoffRatio = f64_half, inflight = 1, limit = 0\<rparr>
     (Some \<lparr>tx_inflight = 1, tx_limit = 0\<rparr>) (GRPCStatus Unavailable)
     = Inr \<lparr>backoffRatio = f64_half, inflight = 1, limit = 1\<rparr> \<and>
   finish amd64_indef \<lparr>backoffRatio = f64_half, inflight = 1, limit = 0\<rparr>
     (Some \<lparr>tx_inflight = 1, tx_limit = 0\<rparr>) nil
     = Inr \<lparr>backoffRatio = f64_half, inflight = 1, limit = 1\<rparr>"
  using zero_ceiling [where r = f64_half and indef = amd64_indef and n = 3
          and l = "\<lparr>backoffRatio = f64_half, inflight = 1, limit = 0\<rparr>"
          and t = "\<lparr>tx_inflight = 1, tx_limit = 0\<rparr>" and err = "GRPCStatus Unavailable"]
        zero_ceiling [where r = f64_half and indef = amd64_indef and n = 3
          and l = "\<lparr>backoffRatio = f64_half, inflight = 1, limit = 0\<rparr>"
          and tx = "Some \<lparr>tx_inflight = 1, tx_limit = 0\<rparr>" and err = nil]
  by (simp add: overload_iff f64_is_finite_def f64_half_def)

text \<open>
  The claim as stated has the limit stay 0 until the first overload settling; settling the
  first ticket without error already raises it to 1.
\<close>

theorem zero_ceiling_raised_counterexample:
  "\<not> overload nil \<and>
   limit (run amd64_indef (Limiter 0 f64_half) [Admit]) = 0 \<and>
   limit (run amd64_indef (Limiter 0 f64_half) [Admit, Settle \<lparr>tx_inflight = 1, tx_limit = 0\<rparr> nil]) = 1"
  by (simp add: not_overload_nil Limiter_def start_def step_Settle additive_increase_def)

end
